theory Spec2Isabelle
  imports Main "HOL-Library.Word" "HOL-Library.Multiset" "HOL-Library.Char_ord"
    "HOL-Library.List_Lexorder" "HOL-Library.Product_Lexorder"
begin

unbundle bit_operations_syntax

chapter \<open>Definitions: the four programs, embedded\<close>

section \<open>Act3.4: keys of the per-IP grouping\<close>

text \<open>
  \<^verbatim>\<open>struct IPKey { int ip1, ip2, ip3, ip4; bool operator<(const IPKey&) const; }\<close>.
  The octets come from \<^verbatim>\<open>stoi\<close> and are not validated, so they are integers.
\<close>

record IPKey =
  ip1 :: int
  ip2 :: int
  ip3 :: int
  ip4 :: int

definition IPKey_less :: "IPKey \<Rightarrow> IPKey \<Rightarrow> bool" where
  "IPKey_less a b =
     (if IPKey.ip1 a \<noteq> IPKey.ip1 b then IPKey.ip1 a < IPKey.ip1 b
      else if IPKey.ip2 a \<noteq> IPKey.ip2 b then IPKey.ip2 a < IPKey.ip2 b
      else if IPKey.ip3 a \<noteq> IPKey.ip3 b then IPKey.ip3 a < IPKey.ip3 b
      else IPKey.ip4 a < IPKey.ip4 b)"

section \<open>Act2.3: log entries, their order and the numeric key of an address\<close>

text \<open>
  \<^verbatim>\<open>struct entry\<close> of Act2.3 (Act3.4 declares the same struct). The field
  \<^verbatim>\<open>min\<close> is called \<open>minute\<close> here. \<^verbatim>\<open>long long totalTime\<close> and the
  \<^verbatim>\<open>int\<close> fields are integers: no claim below depends on their overflow.
  \<^verbatim>\<open>std::string\<close> comparison is the lexicographic order on bytes, which is the
  order of \<open>char list\<close>.
\<close>

record entry =
  month :: int
  day :: int
  hour :: int
  minute :: int
  sec :: int
  totalTime :: int
  ip1 :: int
  ip2 :: int
  ip3 :: int
  ip4 :: int
  port :: int
  reason :: string
  originLine :: string

definition lessEntry :: "entry \<Rightarrow> entry \<Rightarrow> bool" where
  "lessEntry a b =
     (if ip1 a \<noteq> ip1 b then ip1 a < ip1 b
      else if ip2 a \<noteq> ip2 b then ip2 a < ip2 b
      else if ip3 a \<noteq> ip3 b then ip3 a < ip3 b
      else if ip4 a \<noteq> ip4 b then ip4 a < ip4 b
      else if totalTime a \<noteq> totalTime b then totalTime a < totalTime b
      else reason a < reason b)"

text \<open>
  The key that \<^verbatim>\<open>lowerBoundIP\<close>, \<^verbatim>\<open>upperBoundIP\<close> and \<^verbatim>\<open>main\<close> compute inline:
  \<^verbatim>\<open>((unsigned long long)a << 24) | ((unsigned long long)b << 16) | ((unsigned long long)c << 8) | (unsigned long long)d\<close>.
  The conversion of an \<^verbatim>\<open>int\<close> to \<^verbatim>\<open>unsigned long long\<close> is \<open>word_of_int\<close>.
\<close>

definition ipVal :: "int \<Rightarrow> int \<Rightarrow> int \<Rightarrow> int \<Rightarrow> 64 word" where
  "ipVal a b c d =
     (((push_bit 24 (word_of_int a) OR push_bit 16 (word_of_int b)) OR
       push_bit 8 (word_of_int c)) OR word_of_int d)"

definition entryVal :: "entry \<Rightarrow> 64 word" where
  "entryVal e = ipVal (ip1 e) (ip2 e) (ip3 e) (ip4 e)"

section \<open>Act5.2: comparing two addresses given as text\<close>

text \<open>
  \<^verbatim>\<open>getline(ss, part, '.')\<close> on the rest of the stream: it fails when nothing is left,
  and otherwise yields the characters before the next dot and consumes that dot.
\<close>

definition getline_dot :: "string \<Rightarrow> (string \<times> string) option" where
  "getline_dot s =
     (if s = [] then None
      else Some (takeWhile (\<lambda>c. c \<noteq> CHR ''.'') s, drop 1 (dropWhile (\<lambda>c. c \<noteq> CHR ''.'') s)))"

text \<open>
  A plain \<^verbatim>\<open>char\<close> is signed on the platform of the program: the bytes from 128 on are
  the negative values.
\<close>

definition char_int :: "char \<Rightarrow> int" where
  "char_int c = (if of_char c < (128::nat) then int (of_char c) else int (of_char c) - 256)"

text \<open>
  The inner loop of \<^verbatim>\<open>parseIPOctets\<close>:
  \<^verbatim>\<open>octets[count - 1] = octets[count - 1] * 10 + (part[i] - '0')\<close>. The accumulator is
  an \<^verbatim>\<open>int\<close> of 32 bits: the arithmetic is that of \<open>32 word\<close>, which wraps, and the
  octet is read back as a signed number.
\<close>

definition digitsValue :: "string \<Rightarrow> int" where
  "digitsValue part =
     sint (foldl (\<lambda>v c. v * 10 + (word_of_int (char_int c) - 48)) (0::32 word) part)"

function parseIPOctets_from :: "nat \<Rightarrow> string \<Rightarrow> int list" where
  "parseIPOctets_from cnt s =
     (case getline_dot s of
        None \<Rightarrow> []
      | Some (part, rest) \<Rightarrow>
          if cnt < 4 then digitsValue part # parseIPOctets_from (Suc cnt) rest else [])"
  by pat_completeness auto
termination
  by (relation "measure (\<lambda>(cnt, s). 4 - cnt)") auto

text \<open>The octets written by \<^verbatim>\<open>parseIPOctets\<close>; the source's \<^verbatim>\<open>count\<close>
  (\<open>cnt\<close> in the loop above) is the length of the list.\<close>

definition parseIPOctets :: "string \<Rightarrow> int list" where
  "parseIPOctets ip = parseIPOctets_from 0 ip"

function compareIPs_loop :: "int list \<Rightarrow> int list \<Rightarrow> nat \<Rightarrow> bool" where
  "compareIPs_loop octets1 octets2 i =
     (if i < 4 \<and> i < length octets1 \<and> i < length octets2 then
        (if octets1 ! i \<noteq> octets2 ! i then octets1 ! i < octets2 ! i
         else compareIPs_loop octets1 octets2 (Suc i))
      else length octets1 < length octets2)"
  by pat_completeness auto
termination
  by (relation "measure (\<lambda>(octets1, octets2, i). 4 - i)") auto

definition compareIPs :: "string \<Rightarrow> string \<Rightarrow> bool" where
  "compareIPs ipA ipB = compareIPs_loop (parseIPOctets ipA) (parseIPOctets ipB) 0"

section \<open>Well-formed addresses\<close>

text \<open>An octet as a dotted quad has it, between 0 and 255, and four of them.\<close>

definition octet :: "int \<Rightarrow> bool" where
  "octet x = (0 \<le> x \<and> x < 256)"

definition quad :: "int \<Rightarrow> int \<Rightarrow> int \<Rightarrow> int \<Rightarrow> bool" where
  "quad a b c d = (octet a \<and> octet b \<and> octet c \<and> octet d)"

section \<open>Act2.3: merge sort of the linked list\<close>

text \<open>
  \<^verbatim>\<open>total_time\<close>, the key of date and time, with 31 days in every month.
\<close>

definition total_time :: "int \<Rightarrow> int \<Rightarrow> int \<Rightarrow> int \<Rightarrow> int \<Rightarrow> int" where
  "total_time mo d h mi s = ((((mo * 31 + d) * 24 + h) * 60 + mi) * 60 + s)"

text \<open>
  The doubly linked list is the list of its entries from \<^verbatim>\<open>head\<close> to the last node;
  a node is its position in that list and \<^verbatim>\<open>nullptr\<close> is \<open>None\<close>.
  \<^verbatim>\<open>mergeSortedLists\<close> takes the node of \<^verbatim>\<open>first\<close> only when \<^verbatim>\<open>lessEntry\<close> says it
  is smaller, and hangs the rest of the other list on the tail when one list ends.
\<close>

fun mergeSortedLists :: "entry list \<Rightarrow> entry list \<Rightarrow> entry list" where
  "mergeSortedLists [] second = second"
| "mergeSortedLists first [] = first"
| "mergeSortedLists (a # first) (b # second) =
     (if lessEntry a b then a # mergeSortedLists first (b # second)
      else b # mergeSortedLists (a # first) second)"

text \<open>
  The walk of \<^verbatim>\<open>slow\<close> and \<^verbatim>\<open>fast\<close> in \<^verbatim>\<open>mergeSortList\<close>:
  \<^verbatim>\<open>while(fast && fast->next) { fast = fast->next->next; if(fast) slow = slow->next; }\<close>.
  The second argument is the list from \<^verbatim>\<open>fast\<close> on, the first the position of
  \<^verbatim>\<open>slow\<close>; the result is the position of the last node of the first half.
\<close>

fun findMiddle :: "nat \<Rightarrow> 'a list \<Rightarrow> nat" where
  "findMiddle slow (x # y # fast) =
     (if fast \<noteq> [] then findMiddle (Suc slow) fast else findMiddle slow fast)"
| "findMiddle slow fast = slow"

lemma findMiddle_eq: "findMiddle slow fast = slow + (length fast - 1) div 2"
proof (induction slow fast rule: findMiddle.induct)
  case (1 slow x y fast)
  then show ?case by (cases fast) auto
qed auto

lemma Suc_findMiddle_less:
  "start \<noteq> [] \<Longrightarrow> tl start \<noteq> [] \<Longrightarrow> Suc (findMiddle 0 start) < length start"
  by (cases start; cases "tl start") (auto simp: findMiddle_eq)

function mergeSortList :: "entry list \<Rightarrow> entry list" where
  "mergeSortList start =
     (if start = [] \<or> tl start = [] then start
      else
        let slow = findMiddle 0 start;
            secondHalf = drop (Suc slow) start;
            leftSorted = mergeSortList (take (Suc slow) start);
            rightSorted = mergeSortList secondHalf
        in mergeSortedLists leftSorted rightSorted)"
  by pat_completeness auto
termination
  by (relation "measure length") (auto simp: Suc_findMiddle_less)

declare mergeSortList.simps [simp del]

section \<open>Act2.3: the range query of main\<close>

text \<open>
  \<^verbatim>\<open>lowerBoundIP\<close> and \<^verbatim>\<open>upperBoundIP\<close> walk from \<^verbatim>\<open>start\<close> along \<^verbatim>\<open>next\<close>. The
  argument is the list from \<^verbatim>\<open>start\<close> on; the result is how many steps
  the walk took, or \<open>None\<close> when it ran off the end.
\<close>

fun lowerBoundIP :: "entry list \<Rightarrow> 64 word \<Rightarrow> nat option" where
  "lowerBoundIP [] key = None"
| "lowerBoundIP (e # es) key =
     (if entryVal e \<ge> key then Some 0 else map_option Suc (lowerBoundIP es key))"

fun upperBoundIP :: "entry list \<Rightarrow> 64 word \<Rightarrow> nat option" where
  "upperBoundIP [] key = None"
| "upperBoundIP (e # es) key =
     (if entryVal e > key then Some 0 else map_option Suc (upperBoundIP es key))"

text \<open>
  The last loop of \<^verbatim>\<open>main\<close>, from \<^verbatim>\<open>endNode\<close> back along \<^verbatim>\<open>prev\<close>:
  \<^verbatim>\<open>while(cur) { cout << cur->data.originLine; if(cur == startNode) break; cur = cur->prev; }\<close>.
  The node before position 0 is \<^verbatim>\<open>nullptr\<close>.
\<close>

fun printBack :: "entry list \<Rightarrow> nat \<Rightarrow> nat \<Rightarrow> string list" where
  "printBack xs 0 startNode = [originLine (xs ! 0)]"
| "printBack xs (Suc cur) startNode =
     originLine (xs ! Suc cur) # (if Suc cur = startNode then [] else printBack xs cur startNode)"

text \<open>
  Steps 3.4 to 3.6 of \<^verbatim>\<open>main\<close> on the sorted list \<open>head\<close>: the two keys are swapped when
  inverted, \<^verbatim>\<open>endBound\<close> is searched from \<^verbatim>\<open>startNode\<close> (from \<^verbatim>\<open>head\<close> when that is
  null), \<^verbatim>\<open>endNode\<close> is \<^verbatim>\<open>tail\<close> or \<^verbatim>\<open>endBound->prev\<close>, and nothing is printed when
  \<^verbatim>\<open>startNode\<close> or \<^verbatim>\<open>endNode\<close> is null. The result is the lines written to the
  standard output.
\<close>

definition rangeQuery :: "entry list \<Rightarrow> 64 word \<Rightarrow> 64 word \<Rightarrow> string list" where
  "rangeQuery head key1 key2 =
     (let startKey = (if key1 > key2 then key2 else key1);
          endKey = (if key1 > key2 then key1 else key2);
          startNode = lowerBoundIP head startKey;
          endBound = (case startNode of
                        Some i \<Rightarrow> map_option (\<lambda>j. i + j) (upperBoundIP (drop i head) endKey)
                      | None \<Rightarrow> upperBoundIP head endKey);
          endNode = (case endBound of
                       None \<Rightarrow> (if head = [] then None else Some (length head - 1))
                     | Some j \<Rightarrow> (if j = 0 then None else Some (j - 1)))
      in case (startNode, endNode) of
           (Some s, Some e) \<Rightarrow> printBack head e s
         | _ \<Rightarrow> [])"

text \<open>
  \<^verbatim>\<open>main\<close> of Act2.3 from the parsed entries of the file and the octets of the two
  addresses read from the standard input: the list is sorted, then queried.
\<close>

definition main_range :: "entry list \<Rightarrow> int \<times> int \<times> int \<times> int \<Rightarrow> int \<times> int \<times> int \<times> int \<Rightarrow> string list" where
  "main_range entries startIP endIP =
     (case (startIP, endIP) of
        ((a1, b1, c1, d1), (a2, b2, c2, d2)) \<Rightarrow>
          rangeQuery (mergeSortList entries) (ipVal a1 b1 c1 d1) (ipVal a2 b2 c2 d2))"

text \<open>
  The filling of an \<^verbatim>\<open>entry\<close> in the reading loop of \<^verbatim>\<open>main\<close>, from the numbers
  the tokens of a line stand for.
\<close>

definition fill_entry ::
  "int \<Rightarrow> int \<Rightarrow> int \<Rightarrow> int \<Rightarrow> int \<Rightarrow> int \<times> int \<times> int \<times> int \<Rightarrow> int \<Rightarrow> string \<Rightarrow> string \<Rightarrow> entry" where
  "fill_entry mo d h mi s ip p r line =
     (case ip of (a, b, c, e) \<Rightarrow>
        \<lparr>month = mo, day = d, hour = h, minute = mi, sec = s,
         totalTime = total_time mo d h mi s,
         ip1 = a, ip2 = b, ip3 = c, ip4 = e, port = p, reason = r, originLine = line\<rparr>)"

section \<open>Act2.3: what sorted means\<close>

text \<open>
  The composite key that \<^verbatim>\<open>lessEntry\<close> compares, two entries of the same key (neither
  is less than the other), and a list in ascending order of \<^verbatim>\<open>lessEntry\<close>.
\<close>

definition entryKey :: "entry \<Rightarrow> int \<times> int \<times> int \<times> int \<times> int \<times> string" where
  "entryKey e = (ip1 e, ip2 e, ip3 e, ip4 e, totalTime e, reason e)"

definition sameKey :: "entry \<Rightarrow> entry \<Rightarrow> bool" where
  "sameKey k e = (\<not> lessEntry k e \<and> \<not> lessEntry e k)"

definition ascending :: "entry list \<Rightarrow> bool" where
  "ascending xs = sorted_wrt (\<lambda>a b. \<not> lessEntry b a) xs"

section \<open>Act2.3: example logs\<close>

text \<open>
  Two lines that differ in the port only, so that \<^verbatim>\<open>lessEntry\<close> orders them neither way,
  and two lines of the addresses 1.0.0.1 and 1.0.0.9.
\<close>

definition lineA :: entry where
  "lineA = fill_entry 7 18 7 53 22 (10, 0, 0, 5) 6526 ''timeout''
     ''Jul 18 07:53:22 10.0.0.5:6526 timeout''"

definition lineB :: entry where
  "lineB = fill_entry 7 18 7 53 22 (10, 0, 0, 5) 6527 ''timeout''
     ''Jul 18 07:53:22 10.0.0.5:6527 timeout''"

definition lineC :: entry where
  "lineC = fill_entry 7 18 7 53 22 (1, 0, 0, 1) 80 ''ok'' ''Jul 18 07:53:22 1.0.0.1:80 ok''"

definition lineD :: entry where
  "lineD = fill_entry 7 19 8 0 0 (1, 0, 0, 9) 80 ''ok'' ''Jul 19 08:00:00 1.0.0.9:80 ok''"

section \<open>Act3.4: grouping by address and the five most frequent addresses\<close>

text \<open>
  \<^verbatim>\<open>struct IPData { IPKey key; vector<entry> entries; int count; }\<close>.
\<close>

record IPData =
  key :: IPKey
  entries :: "entry list"
  count :: int

text \<open>\<^verbatim>\<open>IPKey key = {E.ip1, E.ip2, E.ip3, E.ip4}\<close> in the reading loop.\<close>

definition ipKeyOf :: "entry \<Rightarrow> IPKey" where
  "ipKeyOf E = \<lparr>IPKey.ip1 = ip1 E, IPKey.ip2 = ip2 E, IPKey.ip3 = ip3 E, IPKey.ip4 = ip4 E\<rparr>"

text \<open>
  \<^verbatim>\<open>map<IPKey, vector<entry>> ipMap\<close> is the list of its pairs in the order of iteration,
  ascending by \<^verbatim>\<open>operator<\<close>; two keys are the same key of the map when neither is less
  than the other. \<^verbatim>\<open>ipMap[key].push_back(E)\<close>:
\<close>

fun ipMap_push :: "IPKey \<Rightarrow> entry \<Rightarrow> (IPKey \<times> entry list) list \<Rightarrow> (IPKey \<times> entry list) list" where
  "ipMap_push k E [] = [(k, [E])]"
| "ipMap_push k E ((k', es) # m) =
     (if IPKey_less k k' then (k, [E]) # (k', es) # m
      else if IPKey_less k' k then (k', es) # ipMap_push k E m
      else (k', es @ [E]) # m)"

definition build_ipMap :: "entry list \<Rightarrow> (IPKey \<times> entry list) list" where
  "build_ipMap lines = foldl (\<lambda>m E. ipMap_push (ipKeyOf E) E m) [] lines"

text \<open>
  \<^verbatim>\<open>lessEntry\<close> of Act3.4 orders the entries of one address by time, then by reason.
\<close>

definition lessEntry34 :: "entry \<Rightarrow> entry \<Rightarrow> bool" where
  "lessEntry34 a b =
     (if totalTime a \<noteq> totalTime b then totalTime a < totalTime b
      else reason a < reason b)"

text \<open>
  \<^verbatim>\<open>std::sort\<close> belongs to the C++ library, not to the program, and the standard fixes
  of its result only this: it is a permutation of the range, and no element is less, by
  the given comparison, than an element that stands before it. The order of elements that
  the comparison does not separate is left open, and differs between libraries. The
  functions that call \<^verbatim>\<open>sort\<close> therefore take the sorting function as an argument, and
  \<open>std_sort_contract cmp srt\<close> says that \<open>srt\<close> is a possible behaviour of
  \<^verbatim>\<open>sort(first, last, cmp)\<close>.
\<close>

definition std_sort_contract :: "('a \<Rightarrow> 'a \<Rightarrow> bool) \<Rightarrow> ('a list \<Rightarrow> 'a list) \<Rightarrow> bool" where
  "std_sort_contract cmp srt =
     (\<forall>xs. mset (srt xs) = mset xs \<and> sorted_wrt (\<lambda>a b. \<not> cmp b a) (srt xs))"

text \<open>
  One sorting function that meets the contract, for running the program on an example:
  the insertion sort, where an element goes before the first one that is not less than it.
\<close>

fun sort_insert :: "('a \<Rightarrow> 'a \<Rightarrow> bool) \<Rightarrow> 'a \<Rightarrow> 'a list \<Rightarrow> 'a list" where
  "sort_insert cmp x [] = [x]"
| "sort_insert cmp x (y # ys) =
     (if cmp y x then y # sort_insert cmp x ys else x # y # ys)"

definition insertion_sort :: "('a \<Rightarrow> 'a \<Rightarrow> bool) \<Rightarrow> 'a list \<Rightarrow> 'a list" where
  "insertion_sort cmp xs = foldr (sort_insert cmp) xs []"

text \<open>
  Step 5.2 of \<^verbatim>\<open>main\<close>: one \<^verbatim>\<open>IPData\<close> for each pair of the map; \<open>sortEntries\<close> is
  \<^verbatim>\<open>sort(data.entries.begin(), data.entries.end(), lessEntry)\<close>.
\<close>

definition ipDataList :: "(entry list \<Rightarrow> entry list) \<Rightarrow> entry list \<Rightarrow> IPData list" where
  "ipDataList sortEntries lines =
     map (\<lambda>(k, es). \<lparr>key = k, entries = sortEntries es, count = int (length es)\<rparr>)
       (build_ipMap lines)"

text \<open>The comparison of step 5.3, the lambda given to \<^verbatim>\<open>sort\<close>.\<close>

definition byCount :: "IPData \<Rightarrow> IPData \<Rightarrow> bool" where
  "byCount a b =
     (if count a \<noteq> count b then count a > count b
      else if IPKey.ip1 (key a) \<noteq> IPKey.ip1 (key b) then IPKey.ip1 (key a) > IPKey.ip1 (key b)
      else if IPKey.ip2 (key a) \<noteq> IPKey.ip2 (key b) then IPKey.ip2 (key a) > IPKey.ip2 (key b)
      else if IPKey.ip3 (key a) \<noteq> IPKey.ip3 (key b) then IPKey.ip3 (key a) > IPKey.ip3 (key b)
      else IPKey.ip4 (key a) > IPKey.ip4 (key b))"

text \<open>
  Step 5.3; \<open>sortGroups\<close> is \<^verbatim>\<open>sort(ipDataList.begin(), ipDataList.end(), ...)\<close> with
  the lambda.
\<close>

definition sortedGroups ::
  "(entry list \<Rightarrow> entry list) \<Rightarrow> (IPData list \<Rightarrow> IPData list) \<Rightarrow> entry list \<Rightarrow> IPData list" where
  "sortedGroups sortEntries sortGroups lines = sortGroups (ipDataList sortEntries lines)"

text \<open>
  Step 5.4: \<^verbatim>\<open>limit = min(5, (int)ipDataList.size())\<close>, and the original lines of the
  first \<^verbatim>\<open>limit\<close> groups are printed. The result is the lines written.
\<close>

definition top5 ::
  "(entry list \<Rightarrow> entry list) \<Rightarrow> (IPData list \<Rightarrow> IPData list) \<Rightarrow> entry list \<Rightarrow> string list" where
  "top5 sortEntries sortGroups lines =
     (let groups = sortedGroups sortEntries sortGroups lines;
          limit = min 5 (length groups)
      in concat (map (\<lambda>d. map originLine (entries d)) (take limit groups)))"

section \<open>Act3.4: what the order of the groups means\<close>

text \<open>
  \<open>octetsOf\<close> is the address of a line of the log, its four octets, and \<open>ipTuple\<close> the
  four octets of a key; the order of the tuples is the numeric order of the addresses,
  octet by octet from the left. \<open>before a b\<close>: group \<open>a\<close> has more accesses than \<open>b\<close>,
  or as many and the numerically larger address. \<open>groupRank\<close> reads a group as a tuple
  whose order is the comparison of step 5.3, and \<open>strictKeys\<close> says that the pairs of
  the map are in strictly ascending order of their keys.
\<close>

definition octetsOf :: "entry \<Rightarrow> int \<times> int \<times> int \<times> int" where
  "octetsOf E = (ip1 E, ip2 E, ip3 E, ip4 E)"

definition ipTuple :: "IPKey \<Rightarrow> int \<times> int \<times> int \<times> int" where
  "ipTuple k = (IPKey.ip1 k, IPKey.ip2 k, IPKey.ip3 k, IPKey.ip4 k)"

definition groupRank :: "IPData \<Rightarrow> int \<times> int \<times> int \<times> int \<times> int" where
  "groupRank d = (- count d, - IPKey.ip1 (key d), - IPKey.ip2 (key d), - IPKey.ip3 (key d),
      - IPKey.ip4 (key d))"

definition before :: "IPData \<Rightarrow> IPData \<Rightarrow> bool" where
  "before a b =
     (count a > count b \<or> (count a = count b \<and> ipTuple (key b) < ipTuple (key a)))"

definition strictKeys :: "(IPKey \<times> entry list) list \<Rightarrow> bool" where
  "strictKeys m = sorted_wrt (\<lambda>p q. IPKey_less (fst p) (fst q)) m"

text \<open>
  A log of eight lines over six addresses: 1.9.9.4 and 1.2.3.4 have two lines each, and
  10.0.0.5, 2.0.0.1, 1.9.3.4 and 1.2.9.4 one. No two lines of an address have the same
  time.
\<close>

definition exampleLog :: "entry list" where
  "exampleLog =
     [fill_entry 7 18 7 53 22 (1, 2, 3, 4) 80 ''ok'' ''Jul 18 07:53:22 1.2.3.4:80 ok'',
      fill_entry 7 18 7 53 23 (1, 9, 9, 4) 80 ''ok'' ''Jul 18 07:53:23 1.9.9.4:80 ok'',
      fill_entry 7 18 7 53 24 (1, 2, 3, 4) 81 ''ok'' ''Jul 18 07:53:24 1.2.3.4:81 ok'',
      fill_entry 7 18 7 53 25 (1, 9, 9, 4) 81 ''ok'' ''Jul 18 07:53:25 1.9.9.4:81 ok'',
      fill_entry 7 18 7 53 26 (10, 0, 0, 5) 80 ''ok'' ''Jul 18 07:53:26 10.0.0.5:80 ok'',
      fill_entry 7 18 7 53 27 (1, 2, 9, 4) 80 ''ok'' ''Jul 18 07:53:27 1.2.9.4:80 ok'',
      fill_entry 7 18 7 53 28 (1, 9, 3, 4) 80 ''ok'' ''Jul 18 07:53:28 1.9.3.4:80 ok'',
      fill_entry 7 18 7 53 29 (2, 0, 0, 1) 80 ''ok'' ''Jul 18 07:53:29 2.0.0.1:80 ok'']"

section \<open>Act5.2: the table of networks\<close>

text \<open>
  \<^verbatim>\<open>struct NetworkInfo\<close>. The linked list \<^verbatim>\<open>IPNode* uniqueIPs\<close> is the list of its
  addresses from the head on. The counters are \<^verbatim>\<open>int\<close>; their overflow is out of reach
  of the claims and they are integers here.
\<close>

record NetworkInfo =
  network :: string
  accessCount :: int
  uniqueIPs :: "string list"
  connectionCount :: int
  occupied :: bool

text \<open>
  The global state: \<^verbatim>\<open>NetworkInfo hashTable[TABLE_SIZE]\<close> and \<^verbatim>\<open>int itemCount\<close>. The
  array is a function of the index; only the indices below \<^verbatim>\<open>TABLE_SIZE\<close> are ever
  read or written. \<^verbatim>\<open>TABLE_SIZE\<close> is the first argument \<open>n\<close> of every function
  below: the program fixes it to 65521.
\<close>

record state52 =
  hashTable :: "nat \<Rightarrow> NetworkInfo"
  itemCount :: int

definition TABLE_SIZE_52 :: nat where
  "TABLE_SIZE_52 = 65521"

text \<open>Step 4.1 of \<^verbatim>\<open>main\<close>: every slot is marked free; \<^verbatim>\<open>itemCount\<close> starts at 0.\<close>

definition emptySlot :: NetworkInfo where
  "emptySlot = \<lparr>network = [], accessCount = 0, uniqueIPs = [], connectionCount = 0,
     occupied = False\<rparr>"

definition initState :: state52 where
  "initState = \<lparr>hashTable = (\<lambda>i. emptySlot), itemCount = 0\<rparr>"

text \<open>
  \<^verbatim>\<open>hashFunction\<close>. The accumulator is an \<^verbatim>\<open>unsigned long\<close> that stays below
  \<^verbatim>\<open>TABLE_SIZE\<close> between two steps, so that \<open>hash * 31 + 255\<close> does not wrap for the
  table size of the program; it is a natural number here.
\<close>

definition hashFunction :: "nat \<Rightarrow> string \<Rightarrow> nat" where
  "hashFunction n k =
     foldl (\<lambda>hash c. ((hash * 31 + of_char c) mod n + 37) mod n) 0 k mod n"

text \<open>
  \<^verbatim>\<open>s.find(c, pos)\<close> of \<^verbatim>\<open>std::string\<close>: the first position of \<open>c\<close> at or after
  \<open>pos\<close>, or \<^verbatim>\<open>npos\<close> (\<open>None\<close>).
\<close>

definition find_char :: "string \<Rightarrow> char \<Rightarrow> nat \<Rightarrow> nat option" where
  "find_char s c pos =
     (if c \<in> set (drop pos s) then Some (pos + length (takeWhile (\<lambda>x. x \<noteq> c) (drop pos s)))
      else None)"

definition extractNetwork :: "string \<Rightarrow> string" where
  "extractNetwork ip =
     (case find_char ip CHR ''.'' 0 of
        None \<Rightarrow> []
      | Some firstDot \<Rightarrow>
          (case find_char ip CHR ''.'' (firstDot + 1) of
             None \<Rightarrow> []
           | Some secondDot \<Rightarrow> take secondDot ip))"

fun ipExists :: "string list \<Rightarrow> string \<Rightarrow> bool" where
  "ipExists [] ip = False"
| "ipExists (current # rest) ip = (if current = ip then True else ipExists rest ip)"

definition addIP :: "string list \<Rightarrow> string \<Rightarrow> string list" where
  "addIP head ip = ip # head"

text \<open>
  The two branches of \<^verbatim>\<open>insertOrUpdate\<close> that write a slot: the creation of a network
  in a free slot and the update of the slot that holds the network.
\<close>

definition createSlot :: "string \<Rightarrow> string \<Rightarrow> NetworkInfo" where
  "createSlot netw ip =
     \<lparr>network = netw, accessCount = 1, uniqueIPs = addIP [] ip, connectionCount = 1,
      occupied = True\<rparr>"

definition updateSlot :: "NetworkInfo \<Rightarrow> string \<Rightarrow> NetworkInfo" where
  "updateSlot e ip =
     (if \<not> ipExists (uniqueIPs e) ip
      then e\<lparr>accessCount := accessCount e + 1, uniqueIPs := addIP (uniqueIPs e) ip,
             connectionCount := connectionCount e + 1\<rparr>
      else e\<lparr>accessCount := accessCount e + 1\<rparr>)"

text \<open>
  The probing loop of \<^verbatim>\<open>insertOrUpdate\<close>, from the state of its variables
  \<^verbatim>\<open>index\<close> and \<^verbatim>\<open>probeCount\<close>. The result is the returned flag and the new state.
\<close>

function insertOrUpdate_loop ::
  "nat \<Rightarrow> state52 \<Rightarrow> string \<Rightarrow> string \<Rightarrow> nat \<Rightarrow> nat \<Rightarrow> nat \<Rightarrow> bool \<times> state52" where
  "insertOrUpdate_loop n st netw ip originalIndex index probeCount =
     (if probeCount < n then
        (if \<not> occupied (hashTable st index) then
           (True, st\<lparr>hashTable := (hashTable st)(index := createSlot netw ip),
                     itemCount := itemCount st + 1\<rparr>)
         else if network (hashTable st index) = netw then
           (True, st\<lparr>hashTable := (hashTable st)(index := updateSlot (hashTable st index) ip)\<rparr>)
         else if (index + 1) mod n = originalIndex then (False, st)
         else insertOrUpdate_loop n st netw ip originalIndex ((index + 1) mod n) (probeCount + 1))
      else (False, st))"
  by pat_completeness auto
termination
  by (relation "measure (\<lambda>(n, st, netw, ip, originalIndex, index, probeCount). n - probeCount)") auto

declare insertOrUpdate_loop.simps [simp del]

definition insertOrUpdate :: "nat \<Rightarrow> state52 \<Rightarrow> string \<Rightarrow> string \<Rightarrow> bool \<times> state52" where
  "insertOrUpdate n st netw ip =
     (if itemCount st \<ge> int n then (False, st)
      else insertOrUpdate_loop n st netw ip (hashFunction n netw) (hashFunction n netw) 0)"

text \<open>\<^verbatim>\<open>searchNetwork\<close>: the index of the network, or -1.\<close>

function searchNetwork_loop :: "nat \<Rightarrow> state52 \<Rightarrow> string \<Rightarrow> nat \<Rightarrow> nat \<Rightarrow> nat \<Rightarrow> int" where
  "searchNetwork_loop n st netw originalIndex index probeCount =
     (if probeCount < n then
        (if \<not> occupied (hashTable st index) then - 1
         else if network (hashTable st index) = netw then int index
         else if (index + 1) mod n = originalIndex then - 1
         else searchNetwork_loop n st netw originalIndex ((index + 1) mod n) (probeCount + 1))
      else - 1)"
  by pat_completeness auto
termination
  by (relation "measure (\<lambda>(n, st, netw, originalIndex, index, probeCount). n - probeCount)") auto

declare searchNetwork_loop.simps [simp del]

definition searchNetwork :: "nat \<Rightarrow> state52 \<Rightarrow> string \<Rightarrow> int" where
  "searchNetwork n st netw =
     searchNetwork_loop n st netw (hashFunction n netw) (hashFunction n netw) 0"

text \<open>
  \<^verbatim>\<open>sortIPList\<close>: an insertion sort of the linked list with \<^verbatim>\<open>compareIPs\<close>. A node goes
  to the front when the sorted list is empty or its address is less than the first one,
  and otherwise behind the last node, from the front, whose successor is not less than it.
\<close>

fun insertAfter :: "string \<Rightarrow> string list \<Rightarrow> string list" where
  "insertAfter current [] = [current]"
| "insertAfter current (next # rest) =
     (if compareIPs next current then next # insertAfter current rest
      else current # next # rest)"

definition insertSorted :: "string list \<Rightarrow> string \<Rightarrow> string list" where
  "insertSorted sortedList current =
     (case sortedList of
        [] \<Rightarrow> [current]
      | first # rest \<Rightarrow>
          if compareIPs current first then current # first # rest
          else first # insertAfter current rest)"

definition sortIPList :: "string list \<Rightarrow> string list" where
  "sortIPList head = (if head = [] \<or> tl head = [] then head else foldl insertSorted [] head)"

text \<open>
  Step 4.3 of \<^verbatim>\<open>main\<close>, for a line whose fourth token is \<open>ipPort\<close>: the address is the
  text before the colon, and a line without a network (fewer than two dots) is passed
  over. The ingestion stops with an error at the first \<^verbatim>\<open>insertOrUpdate\<close> that returns
  false.
\<close>

datatype error52 = FileMissing | TableFull

definition ipOfToken :: "string \<Rightarrow> string" where
  "ipOfToken ipPort =
     (case find_char ipPort CHR '':'' 0 of Some colonPos \<Rightarrow> take colonPos ipPort | None \<Rightarrow> ipPort)"

fun ingest :: "nat \<Rightarrow> state52 \<Rightarrow> string list \<Rightarrow> error52 + state52" where
  "ingest n st [] = Inr st"
| "ingest n st (ipPort # rest) =
     (let ip = ipOfToken ipPort; netw = extractNetwork ip in
      if netw \<noteq> [] then
        (case insertOrUpdate n st netw ip of
           (False, st') \<Rightarrow> Inl TableFull
         | (True, st') \<Rightarrow> ingest n st' rest)
      else ingest n st rest)"

text \<open>The decimal text that \<^verbatim>\<open>cout\<close> writes for an \<^verbatim>\<open>int\<close>.\<close>

function show_nat :: "nat \<Rightarrow> string" where
  "show_nat k = (if k < 10 then [char_of (48 + k)] else show_nat (k div 10) @ [char_of (48 + k mod 10)])"
  by pat_completeness auto
termination
  by (relation "measure id") auto

declare show_nat.simps [simp del]

definition show_int :: "int \<Rightarrow> string" where
  "show_int k = (if k < 0 then CHR ''-'' # show_nat (nat (- k)) else show_nat (nat k))"

text \<open>
  Step 4.4: the loop over the \<open>nq\<close> queries. The tokens of the standard input after the
  number are \<open>toks\<close>; a read past their end leaves the empty string. Each
  \<^verbatim>\<open>cout << ... << endl\<close> is a line of the result.
\<close>

definition notFoundMessage :: string where
  "notFoundMessage = ''Red no encontrada''"

function queryLoop :: "nat \<Rightarrow> state52 \<Rightarrow> int \<Rightarrow> int \<Rightarrow> string list \<Rightarrow> string list" where
  "queryLoop n st i nq toks =
     (if i < nq then
        (let queryNetwork = (case toks of [] \<Rightarrow> [] | t # ts \<Rightarrow> t);
             index = searchNetwork n st queryNetwork;
             separator = (if i < nq - 1 then [[]] else [])
         in if index = - 1 then
              [queryNetwork, notFoundMessage] @ separator @ queryLoop n st (i + 1) nq (tl toks)
            else
              (let e = hashTable st (nat index);
                   e' = e\<lparr>uniqueIPs := sortIPList (uniqueIPs e)\<rparr>;
                   st' = st\<lparr>hashTable := (hashTable st)(nat index := e')\<rparr>
               in [network e', show_int (accessCount e'), show_int (connectionCount e')]
                  @ uniqueIPs e' @ separator @ queryLoop n st' (i + 1) nq (tl toks)))
      else [])"
  by pat_completeness auto
termination
  by (relation "measure (\<lambda>(n, st, i, nq, toks). nat (nq - i))") auto

declare queryLoop.simps [simp del]

text \<open>
  \<^verbatim>\<open>main\<close> of Act5.2. The file is the list of the fourth tokens of its well-formed
  lines, or \<open>None\<close> when it cannot be opened. The result is the standard output, the
  diagnostic stream and the exit status.
\<close>

definition fileMissingMessage :: string where
  "fileMissingMessage = ''Error: No se pudo abrir el archivo bitacora.txt''"

definition tableFullMessage :: string where
  "tableFullMessage = ''Error: Tabla llena, imposible meter m'' @ [CHR 0xC3, CHR 0xA1] @ ''s datos''"

definition main52 ::
  "nat \<Rightarrow> string list option \<Rightarrow> int \<Rightarrow> string list \<Rightarrow> string list \<times> string list \<times> int" where
  "main52 n file nq toks =
     (case file of
        None \<Rightarrow> ([], [fileMissingMessage], 1)
      | Some ipPorts \<Rightarrow>
          (case ingest n initState ipPorts of
             Inl err \<Rightarrow> ([], [tableFullMessage], 1)
           | Inr st \<Rightarrow> (queryLoop n st 0 nq toks, [], 0)))"

section \<open>The text of a dotted quad\<close>

text \<open>
  The address with the octets \<open>a\<close>, \<open>b\<close>, \<open>c\<close> and \<open>d\<close> as the log writes it: the four
  numbers in decimal, separated by dots.
\<close>

definition quadText :: "int \<Rightarrow> int \<Rightarrow> int \<Rightarrow> int \<Rightarrow> string" where
  "quadText a b c d = show_int a @ ''.'' @ show_int b @ ''.'' @ show_int c @ ''.'' @ show_int d"

section \<open>Act4.3: the tables of hosts and networks\<close>

text \<open>
  \<^verbatim>\<open>struct Entry\<close>, \<^verbatim>\<open>struct Host\<close> and \<^verbatim>\<open>struct Network\<close>. Fields whose names are taken
  by the records above carry a suffix: \<open>port43\<close> is \<^verbatim>\<open>Entry::port\<close>, \<open>ip43\<close> and
  \<open>entries43\<close> are \<^verbatim>\<open>Host::ip\<close> and \<^verbatim>\<open>Host::entries\<close>, \<open>used_h\<close> and \<open>used_n\<close> are
  \<^verbatim>\<open>Host::used\<close> and \<^verbatim>\<open>Network::used\<close>. The dynamic array \<^verbatim>\<open>entries\<close> is the list of
  its first \<^verbatim>\<open>entryCount\<close> elements, beside its capacity \<^verbatim>\<open>entryCap\<close>.
\<close>

record Entry43 =
  date :: string
  time :: string
  port43 :: string
  message :: string

record Host =
  ip43 :: string
  entries43 :: "Entry43 list"
  entryCount :: int
  entryCap :: int
  used_h :: bool

record Network =
  prefix :: string
  uniqueHostCount :: int
  used_n :: bool

text \<open>
  The two global arrays, as functions of the index. \<^verbatim>\<open>TABLE_SIZE\<close> is the first argument
  \<open>n\<close> of the functions below; the program fixes it to 1000003.
\<close>

record state43 =
  hostTable :: "nat \<Rightarrow> Host"
  networkTable :: "nat \<Rightarrow> Network"

definition TABLE_SIZE_43 :: nat where
  "TABLE_SIZE_43 = 1000003"

definition initState43 :: state43 where
  "initState43 =
     \<lparr>hostTable = (\<lambda>i. \<lparr>ip43 = [], entries43 = [], entryCount = 0, entryCap = 0, used_h = False\<rparr>),
      networkTable = (\<lambda>i. \<lparr>prefix = [], uniqueHostCount = 0, used_n = False\<rparr>)\<rparr>"

text \<open>\<^verbatim>\<open>hashString\<close>: the accumulator is an \<^verbatim>\<open>unsigned int\<close> and wraps at 32 bits.\<close>

definition hashString :: "string \<Rightarrow> 32 word" where
  "hashString s = foldl (\<lambda>h c. h * 131 + of_char c) 0 s"

definition prefixFromIP :: "string \<Rightarrow> string" where
  "prefixFromIP ip =
     (case find_char ip CHR ''.'' 0 of
        None \<Rightarrow> ip
      | Some p1 \<Rightarrow>
          (case find_char ip CHR ''.'' (p1 + 1) of
             None \<Rightarrow> ip
           | Some p2 \<Rightarrow> take p2 ip))"

text \<open>
  The two ways in which the program ends with \<^verbatim>\<open>exit(1)\<close> or \<^verbatim>\<open>return 1\<close>, each with
  its line on the diagnostic stream.
\<close>

datatype error43 = FileMissing43 | HostsFull | NetworksFull

definition errorMessage43 :: "error43 \<Rightarrow> string" where
  "errorMessage43 e =
     (case e of
        FileMissing43 \<Rightarrow> ''No se pudo abrir bitacora.txt''
      | HostsFull \<Rightarrow> ''Error: tabla de hosts llena, aumenta TABLE_SIZE''
      | NetworksFull \<Rightarrow> ''Error: tabla de redes llena, aumenta TABLE_SIZE'')"

text \<open>
  The loop of \<^verbatim>\<open>getNetworkIndex\<close> from the state of \<open>h\<close> and \<open>pasos\<close>. It returns the
  index and the table, or ends the program after \<^verbatim>\<open>TABLE_SIZE\<close> steps.
\<close>

function getNetworkIndex_loop ::
  "nat \<Rightarrow> (nat \<Rightarrow> Network) \<Rightarrow> string \<Rightarrow> nat \<Rightarrow> nat \<Rightarrow> error43 + nat \<times> (nat \<Rightarrow> Network)" where
  "getNetworkIndex_loop n tbl p h pasos =
     (if pasos < n then
        (if \<not> used_n (tbl h) then
           Inr (h, tbl(h := \<lparr>prefix = p, uniqueHostCount = 0, used_n = True\<rparr>))
         else if prefix (tbl h) = p then Inr (h, tbl)
         else getNetworkIndex_loop n tbl p (if h + 1 = n then 0 else h + 1) (pasos + 1))
      else Inl NetworksFull)"
  by pat_completeness auto
termination
  by (relation "measure (\<lambda>(n, tbl, p, h, pasos). n - pasos)") auto

declare getNetworkIndex_loop.simps [simp del]

definition getNetworkIndex ::
  "nat \<Rightarrow> (nat \<Rightarrow> Network) \<Rightarrow> string \<Rightarrow> error43 + nat \<times> (nat \<Rightarrow> Network)" where
  "getNetworkIndex n tbl p = getNetworkIndex_loop n tbl p (unat (hashString p) mod n) 0"

text \<open>\<^verbatim>\<open>getHostIndex\<close> returns the index, the flag \<^verbatim>\<open>isNew\<close> and the table.\<close>

function getHostIndex_loop ::
  "nat \<Rightarrow> (nat \<Rightarrow> Host) \<Rightarrow> string \<Rightarrow> nat \<Rightarrow> nat \<Rightarrow> error43 + nat \<times> bool \<times> (nat \<Rightarrow> Host)" where
  "getHostIndex_loop n tbl ip h pasos =
     (if pasos < n then
        (if \<not> used_h (tbl h) then
           Inr (h, True, tbl(h := \<lparr>ip43 = ip, entries43 = [], entryCount = 0, entryCap = 10,
                                    used_h = True\<rparr>))
         else if ip43 (tbl h) = ip then Inr (h, False, tbl)
         else getHostIndex_loop n tbl ip (if h + 1 = n then 0 else h + 1) (pasos + 1))
      else Inl HostsFull)"
  by pat_completeness auto
termination
  by (relation "measure (\<lambda>(n, tbl, ip, h, pasos). n - pasos)") auto

declare getHostIndex_loop.simps [simp del]

definition getHostIndex ::
  "nat \<Rightarrow> (nat \<Rightarrow> Host) \<Rightarrow> string \<Rightarrow> error43 + nat \<times> bool \<times> (nat \<Rightarrow> Host)" where
  "getHostIndex n tbl ip = getHostIndex_loop n tbl ip (unat (hashString ip) mod n) 0"

text \<open>
  Step 4.3.5 of \<^verbatim>\<open>main\<close>: the array doubles when it is full (10 when its capacity is
  0), then the entry is written behind the last one.
\<close>

definition appendEntry :: "Host \<Rightarrow> Entry43 \<Rightarrow> Host" where
  "appendEntry h e =
     (let h1 = (if entryCount h = entryCap h
                then h\<lparr>entryCap := (if entryCap h = 0 then 10 else entryCap h * 2)\<rparr>
                else h)
      in h1\<lparr>entries43 := entries43 h1 @ [e], entryCount := entryCount h1 + 1\<rparr>)"

text \<open>
  A line of the file is the tuple of its tokens: month, day, time, \<open>IP:PORT\<close> and the
  message. The body of the reading loop for one line:
\<close>

type_synonym line43 = "string \<times> string \<times> string \<times> string \<times> string"

definition ingestLine :: "nat \<Rightarrow> state43 \<Rightarrow> line43 \<Rightarrow> error43 + state43" where
  "ingestLine n st l =
     (case l of (mon, dy, timeStr, ipPort, msg) \<Rightarrow>
        (let ip = (case find_char ipPort CHR '':'' 0 of
                     Some colonPos \<Rightarrow> take colonPos ipPort | None \<Rightarrow> ipPort);
             prt = (case find_char ipPort CHR '':'' 0 of
                       Some colonPos \<Rightarrow> drop (colonPos + 1) ipPort | None \<Rightarrow> []);
             p = prefixFromIP ip
         in case getHostIndex n (hostTable st) ip of
              Inl e \<Rightarrow> Inl e
            | Inr (hostIndex, isNewHost, hosts) \<Rightarrow>
                (case (if isNewHost
                       then (case getNetworkIndex n (networkTable st) p of
                               Inl e \<Rightarrow> Inl e
                             | Inr (netIndex, nets) \<Rightarrow>
                                 Inr (nets(netIndex := (nets netIndex)
                                        \<lparr>uniqueHostCount := uniqueHostCount (nets netIndex) + 1\<rparr>)))
                       else Inr (networkTable st)) of
                   Inl e \<Rightarrow> Inl e
                 | Inr nets \<Rightarrow>
                     Inr \<lparr>hostTable = hosts(hostIndex := appendEntry (hosts hostIndex)
                              \<lparr>date = mon @ '' '' @ dy, time = timeStr, port43 = prt,
                               message = msg\<rparr>),
                          networkTable = nets\<rparr>)))"

fun ingest43 :: "nat \<Rightarrow> state43 \<Rightarrow> line43 list \<Rightarrow> error43 + state43" where
  "ingest43 n st [] = Inr st"
| "ingest43 n st (l # rest) =
     (case ingestLine n st l of Inl e \<Rightarrow> Inl e | Inr st' \<Rightarrow> ingest43 n st' rest)"

text \<open>
  Steps 4.4 and 4.5: the first scan finds the maximum, from 0, over the used slots, and
  the second scan writes the key of every used slot whose count equals it.
\<close>

definition maxHosts :: "nat \<Rightarrow> (nat \<Rightarrow> Network) \<Rightarrow> int" where
  "maxHosts n tbl =
     foldl (\<lambda>m i. if used_n (tbl i) \<and> uniqueHostCount (tbl i) > m then uniqueHostCount (tbl i) else m)
       0 [0..<n]"

definition networksReport :: "nat \<Rightarrow> (nat \<Rightarrow> Network) \<Rightarrow> string list" where
  "networksReport n tbl =
     map (\<lambda>i. prefix (tbl i))
       (filter (\<lambda>i. used_n (tbl i) \<and> uniqueHostCount (tbl i) = maxHosts n tbl) [0..<n])"

definition maxEntries :: "nat \<Rightarrow> (nat \<Rightarrow> Host) \<Rightarrow> int" where
  "maxEntries n tbl =
     foldl (\<lambda>m i. if used_h (tbl i) \<and> entryCount (tbl i) > m then entryCount (tbl i) else m)
       0 [0..<n]"

definition hostsReport :: "nat \<Rightarrow> (nat \<Rightarrow> Host) \<Rightarrow> string list" where
  "hostsReport n tbl =
     map (\<lambda>i. ip43 (tbl i))
       (filter (\<lambda>i. used_h (tbl i) \<and> entryCount (tbl i) = maxEntries n tbl) [0..<n])"

text \<open>
  \<^verbatim>\<open>main\<close> of Act4.3: the standard output (the networks, a blank line, the hosts), the
  diagnostic stream and the exit status. The file is the list of its well-formed lines,
  or \<open>None\<close> when it cannot be opened.
\<close>

definition main43 :: "nat \<Rightarrow> line43 list option \<Rightarrow> string list \<times> string list \<times> int" where
  "main43 n file =
     (case file of
        None \<Rightarrow> ([], [errorMessage43 FileMissing43], 1)
      | Some lines \<Rightarrow>
          (case ingest43 n initState43 lines of
             Inl e \<Rightarrow> ([], [errorMessage43 e], 1)
           | Inr st \<Rightarrow>
               (networksReport n (networkTable st) @ [[]] @ hostsReport n (hostTable st), [], 0)))"

section \<open>Act5.2: probe sequences, invariants and observations of the table\<close>

text \<open>
  \<open>probe n h d\<close> is the slot that linear probing from \<open>h\<close> reaches after \<open>d\<close> steps.
  \<open>stops n tbl k d\<close>: the probe sequence of \<open>k\<close> meets, after \<open>d\<close> steps, the
  first slot that is free or holds \<open>k\<close>. \<open>allOthers n tbl k\<close>: every slot of the probe
  sequence of \<open>k\<close> is occupied by another network.
\<close>

definition probe :: "nat \<Rightarrow> nat \<Rightarrow> nat \<Rightarrow> nat" where
  "probe n h d = (h + d) mod n"

definition stops :: "nat \<Rightarrow> (nat \<Rightarrow> NetworkInfo) \<Rightarrow> string \<Rightarrow> nat \<Rightarrow> bool" where
  "stops n tbl k d =
     (d < n \<and>
      (\<not> occupied (tbl (probe n (hashFunction n k) d)) \<or>
         network (tbl (probe n (hashFunction n k) d)) = k) \<and>
      (\<forall>d'<d. occupied (tbl (probe n (hashFunction n k) d')) \<and>
         network (tbl (probe n (hashFunction n k) d')) \<noteq> k))"

definition allOthers :: "nat \<Rightarrow> (nat \<Rightarrow> NetworkInfo) \<Rightarrow> string \<Rightarrow> bool" where
  "allOthers n tbl k =
     (\<forall>d<n. occupied (tbl (probe n (hashFunction n k) d)) \<and>
         network (tbl (probe n (hashFunction n k) d)) \<noteq> k)"

text \<open>The state after a creation or an update at slot \<open>i\<close>.\<close>

definition written :: "state52 \<Rightarrow> nat \<Rightarrow> string \<Rightarrow> string \<Rightarrow> state52" where
  "written st i k ip =
     (if occupied (hashTable st i)
      then st\<lparr>hashTable := (hashTable st)(i := updateSlot (hashTable st i) ip)\<rparr>
      else st\<lparr>hashTable := (hashTable st)(i := createSlot k ip), itemCount := itemCount st + 1\<rparr>)"

text \<open>
  The invariant of the table: every occupied slot is where the probe sequence of its own
  network stops, and \<^verbatim>\<open>itemCount\<close> counts the occupied slots.
\<close>

definition chain_ok :: "nat \<Rightarrow> (nat \<Rightarrow> NetworkInfo) \<Rightarrow> bool" where
  "chain_ok n tbl =
     (\<forall>i<n. occupied (tbl i) \<longrightarrow>
        (\<exists>d. i = probe n (hashFunction n (network (tbl i))) d \<and> stops n tbl (network (tbl i)) d))"

definition table_inv :: "nat \<Rightarrow> state52 \<Rightarrow> bool" where
  "table_inv n st =
     (0 < n \<and> itemCount st = int (card {i. i < n \<and> occupied (hashTable st i)}) \<and>
      chain_ok n (hashTable st))"

text \<open>
  The history of an ingestion is the list of its pairs of network and address.
  \<open>opsOf\<close> reads it off the tokens as \<^verbatim>\<open>main\<close> does. \<open>accessesOf\<close> counts the records
  of a network and \<open>ipsOf\<close> lists its distinct addresses; \<open>content_inv\<close> says that the
  occupied slots hold exactly the networks of the history, each with these values.
\<close>

definition accessesOf :: "(string \<times> string) list \<Rightarrow> string \<Rightarrow> int" where
  "accessesOf ops k = int (length (filter (\<lambda>op. fst op = k) ops))"

definition ipsOf :: "(string \<times> string) list \<Rightarrow> string \<Rightarrow> string list" where
  "ipsOf ops k = remdups (map snd (filter (\<lambda>op. fst op = k) ops))"

definition slot_ok :: "(string \<times> string) list \<Rightarrow> NetworkInfo \<Rightarrow> bool" where
  "slot_ok ops e =
     (network e \<in> fst ` set ops \<and>
      accessCount e = accessesOf ops (network e) \<and>
      set (uniqueIPs e) = set (ipsOf ops (network e)) \<and>
      distinct (uniqueIPs e) \<and>
      connectionCount e = int (length (uniqueIPs e)))"

definition content_inv :: "nat \<Rightarrow> (nat \<Rightarrow> NetworkInfo) \<Rightarrow> (string \<times> string) list \<Rightarrow> bool" where
  "content_inv n tbl ops =
     ((\<forall>i<n. occupied (tbl i) \<longrightarrow> slot_ok ops (tbl i)) \<and>
      (\<forall>k\<in>fst ` set ops. \<exists>i<n. occupied (tbl i) \<and> network (tbl i) = k))"

definition opsOf :: "string list \<Rightarrow> (string \<times> string) list" where
  "opsOf toks =
     map (\<lambda>t. (extractNetwork (ipOfToken t), ipOfToken t))
       (filter (\<lambda>t. extractNetwork (ipOfToken t) \<noteq> []) toks)"




text \<open>
  The fourth tokens of the three lines of the specification's scenario, and the state of
  the table of 65521 slots after their ingestion.
\<close>

definition exampleTokens :: "string list" where
  "exampleTokens = [''10.0.0.5:6526'', ''10.0.0.5:6526'', ''10.0.0.9:80'']"

definition exampleState :: state52 where
  "exampleState =
     \<lparr>hashTable = (\<lambda>i. emptySlot)(25529 :=
        \<lparr>network = ''10.0'', accessCount = 3, uniqueIPs = [''10.0.0.9'', ''10.0.0.5''],
         connectionCount = 2, occupied = True\<rparr>),
      itemCount = 1\<rparr>"

text \<open>
  One round of the query loop, split into the lines it writes (without the blank line
  between two queries) and the state it leaves; \<open>answers\<close> are the lines of a list of
  queries that are all followed by another query.
\<close>

definition answer :: "nat \<Rightarrow> state52 \<Rightarrow> string \<Rightarrow> string list" where
  "answer n st q =
     (let index = searchNetwork n st q in
      if index = - 1 then [q, notFoundMessage]
      else (let e = hashTable st (nat index)
            in [network e, show_int (accessCount e), show_int (connectionCount e)]
               @ sortIPList (uniqueIPs e)))"

definition queryStep :: "nat \<Rightarrow> state52 \<Rightarrow> string \<Rightarrow> state52" where
  "queryStep n st q =
     (let index = searchNetwork n st q in
      if index = - 1 then st
      else st\<lparr>hashTable := (hashTable st)(nat index :=
                (hashTable st (nat index))\<lparr>uniqueIPs := sortIPList (uniqueIPs (hashTable st (nat index)))\<rparr>)\<rparr>)"

fun answers :: "nat \<Rightarrow> state52 \<Rightarrow> string list \<Rightarrow> string list" where
  "answers n st [] = []"
| "answers n st (q # qs) = answer n st q @ [[]] @ answers n (queryStep n st q) qs"



chapter \<open>Properties\<close>

section \<open>Numeric order of addresses\<close>

lemma or_push_bit_8:
  fixes lo hi :: int
  assumes "0 \<le> lo" "lo < 256"
  shows "push_bit 8 hi OR lo = hi * 256 + lo"
proof -
  have self: "take_bit 8 lo = lo"
    using assms by (simp add: take_bit_int_eq_self)
  then have "push_bit 8 hi OR lo = concat_bit 8 lo hi"
    by (simp add: concat_bit_def or.commute)
  also have "\<dots> = take_bit 8 lo + push_bit 8 hi"
    by (rule concat_bit_eq)
  finally show ?thesis
    using self by (simp add: push_bit_eq_mult)
qed

lemma ipVal_word_of_int:
  assumes "0 \<le> a" "a < 256" "0 \<le> b" "b < 256" "0 \<le> c" "c < 256" "0 \<le> d" "d < 256"
  shows "ipVal a b c d = word_of_int (((a * 256 + b) * 256 + c) * 256 + d)"
proof -
  have "push_bit 24 a OR push_bit 16 b OR push_bit 8 c OR d
      = push_bit 8 (push_bit 8 (push_bit 8 a OR b) OR c) OR d"
    by (simp add: push_bit_or push_bit_push_bit ac_simps)
  also have "\<dots> = ((a * 256 + b) * 256 + c) * 256 + d"
    using assms by (simp add: or_push_bit_8)
  finally have "(word_of_int (push_bit 24 a OR push_bit 16 b OR push_bit 8 c OR d) :: 64 word)
      = word_of_int (((a * 256 + b) * 256 + c) * 256 + d)"
    by simp
  then show ?thesis
    unfolding ipVal_def by (simp add: of_int_or_eq of_int_push_bit ac_simps)
qed

lemma uint_ipVal:
  assumes "0 \<le> a" "a < 256" "0 \<le> b" "b < 256" "0 \<le> c" "c < 256" "0 \<le> d" "d < 256"
  shows "uint (ipVal a b c d) = ((a * 256 + b) * 256 + c) * 256 + d"
proof -
  define X where "X = ((a * 256 + b) * 256 + c) * 256 + d"
  have lo: "0 \<le> X" using assms by (simp add: X_def)
  have hi: "X < 2 ^ 64" using assms by (simp add: X_def)
  have "ipVal a b c d = word_of_int X"
    unfolding X_def by (rule ipVal_word_of_int [OF assms])
  then have "uint (ipVal a b c d) = take_bit 64 X"
    by (simp add: uint_word_of_int_eq)
  also have "\<dots> = X" using lo hi by (rule take_bit_int_eq_self)
  finally show ?thesis by (simp add: X_def)
qed

lemma base256_less_iff:
  fixes a b c d a' b' c' d' :: int
  assumes "0 \<le> b" "b < 256" "0 \<le> c" "c < 256" "0 \<le> d" "d < 256"
    "0 \<le> b'" "b' < 256" "0 \<le> c'" "c' < 256" "0 \<le> d'" "d' < 256"
  shows "((a * 256 + b) * 256 + c) * 256 + d < ((a' * 256 + b') * 256 + c') * 256 + d'
     \<longleftrightarrow> (if a \<noteq> a' then a < a' else if b \<noteq> b' then b < b'
          else if c \<noteq> c' then c < c' else d < d')"
  using assms by auto

lemma ipVal_less_iff:
  assumes "octet a" "octet b" "octet c" "octet d" "octet a'" "octet b'" "octet c'" "octet d'"
  shows "ipVal a b c d < ipVal a' b' c' d'
     \<longleftrightarrow> (if a \<noteq> a' then a < a' else if b \<noteq> b' then b < b'
          else if c \<noteq> c' then c < c' else d < d')"
proof -
  have "ipVal a b c d < ipVal a' b' c' d'
      \<longleftrightarrow> uint (ipVal a b c d) < uint (ipVal a' b' c' d')"
    by (simp add: word_less_def)
  also have "\<dots> \<longleftrightarrow> ((a * 256 + b) * 256 + c) * 256 + d
       < ((a' * 256 + b') * 256 + c') * 256 + d'"
    using assms by (simp add: uint_ipVal octet_def)
  also have "\<dots> \<longleftrightarrow> (if a \<noteq> a' then a < a' else if b \<noteq> b' then b < b'
          else if c \<noteq> c' then c < c' else d < d')"
    using assms unfolding octet_def by (intro base256_less_iff) simp_all
  finally show ?thesis .
qed

lemma ipVal_eq_iff:
  assumes "octet a" "octet b" "octet c" "octet d" "octet a'" "octet b'" "octet c'" "octet d'"
  shows "ipVal a b c d = ipVal a' b' c' d' \<longleftrightarrow> a = a' \<and> b = b' \<and> c = c' \<and> d = d'"
proof -
  have "ipVal a b c d = ipVal a' b' c' d'
      \<longleftrightarrow> \<not> ipVal a b c d < ipVal a' b' c' d' \<and> \<not> ipVal a' b' c' d' < ipVal a b c d"
    by auto
  also have "\<dots> \<longleftrightarrow> a = a' \<and> b = b' \<and> c = c' \<and> d = d'"
    unfolding ipVal_less_iff [OF assms]
      ipVal_less_iff [OF assms(5) assms(6) assms(7) assms(8) assms(1) assms(2) assms(3) assms(4)]
    by auto
  finally show ?thesis .
qed

lemma compareIPs_loop_quads:
  "compareIPs_loop [a, b, c, d] [a', b', c', d'] 0
     \<longleftrightarrow> (if a \<noteq> a' then a < a' else if b \<noteq> b' then b < b'
          else if c \<noteq> c' then c < c' else d < d')"
  by (simp add: numeral_eq_Suc)

lemma getline_dot_part:
  "CHR ''.'' \<notin> set p \<Longrightarrow> getline_dot (p @ CHR ''.'' # rest) = Some (p, rest)"
proof -
  assume "CHR ''.'' \<notin> set p"
  then have "takeWhile (\<lambda>c. c \<noteq> CHR ''.'') (p @ CHR ''.'' # rest) = p"
    and "dropWhile (\<lambda>c. c \<noteq> CHR ''.'') (p @ CHR ''.'' # rest) = CHR ''.'' # rest"
    by (induction p) auto
  then show ?thesis by (simp add: getline_dot_def)
qed

lemma getline_dot_last:
  "CHR ''.'' \<notin> set p \<Longrightarrow> p \<noteq> [] \<Longrightarrow> getline_dot p = Some (p, [])"
proof -
  assume "CHR ''.'' \<notin> set p" and ne: "p \<noteq> []"
  then have tw: "takeWhile (\<lambda>c. c \<noteq> CHR ''.'') p = p"
    and dw: "dropWhile (\<lambda>c. c \<noteq> CHR ''.'') p = []"
    by (induction p) auto
  show ?thesis unfolding getline_dot_def tw dw using ne by simp
qed

lemma getline_dot_Nil: "getline_dot [] = None"
  by (simp add: getline_dot_def)

lemma parseIPOctets_dotted:
  assumes "CHR ''.'' \<notin> set p1" "CHR ''.'' \<notin> set p2" "CHR ''.'' \<notin> set p3"
    "CHR ''.'' \<notin> set p4" "p4 \<noteq> []"
  shows "parseIPOctets (p1 @ CHR ''.'' # p2 @ CHR ''.'' # p3 @ CHR ''.'' # p4)
     = [digitsValue p1, digitsValue p2, digitsValue p3, digitsValue p4]"
  using assms
  by (simp add: parseIPOctets_def getline_dot_part getline_dot_last getline_dot_Nil)

lemma of_char_digit: "d < 10 \<Longrightarrow> of_char (char_of (48 + d :: nat)) = (48 + d :: nat)"
  by simp

lemma char_int_digit: "d < 10 \<Longrightarrow> char_int (char_of (48 + d :: nat)) = 48 + int d"
  by (simp add: char_int_def)

lemma show_nat_digits: "c \<in> set (show_nat k) \<Longrightarrow> 48 \<le> (of_char c :: nat) \<and> (of_char c :: nat) < 58"
proof (induction k arbitrary: c rule: show_nat.induct)
  case (1 k)
  show ?case
  proof (cases "k < 10")
    case True
    with "1.prems" have "c = char_of (48 + k)" by (simp add: show_nat.simps [of k])
    with True show ?thesis by simp
  next
    case False
    with "1.prems" have "c \<in> set (show_nat (k div 10)) \<or> c = char_of (48 + k mod 10)"
      by (auto simp: show_nat.simps [of k])
    then show ?thesis
    proof
      assume "c \<in> set (show_nat (k div 10))"
      with False show ?thesis by (intro "1.IH")
    next
      assume "c = char_of (48 + k mod 10)"
      then show ?thesis by simp
    qed
  qed
qed

lemma show_nat_no_dot: "CHR ''.'' \<notin> set (show_nat k)" "CHR '':'' \<notin> set (show_nat k)"
  using show_nat_digits [of "CHR ''.''" k] show_nat_digits [of "CHR '':''" k] by auto

lemma show_nat_not_Nil: "show_nat k \<noteq> []"
  by (simp add: show_nat.simps [of k])

lemma digits_word_show_nat:
  "foldl (\<lambda>v c. v * 10 + (word_of_int (char_int c) - 48)) (0::32 word) (show_nat k) = of_nat k"
proof (induction k rule: show_nat.induct)
  case (1 k)
  show ?case
  proof (cases "k < 10")
    case True
    then show ?thesis by (simp add: show_nat.simps [of k] char_int_digit)
  next
    case False
    have "foldl (\<lambda>v c. v * 10 + (word_of_int (char_int c) - 48)) (0::32 word) (show_nat k)
        = of_nat (k div 10) * 10 + (word_of_int (char_int (char_of (48 + k mod 10))) - 48)"
      using False "1.IH" by (simp add: show_nat.simps [of k])
    also have "\<dots> = of_nat (k div 10) * 10 + of_nat (k mod 10)"
      by (simp add: char_int_digit)
    also have "\<dots> = of_nat (k div 10 * 10 + k mod 10)"
      by (simp only: of_nat_add of_nat_mult of_nat_numeral)
    also have "k div 10 * 10 + k mod 10 = k"
      by simp
    finally show ?thesis .
  qed
qed

lemma digitsValue_show_nat:
  assumes "k < 2 ^ 31"
  shows "digitsValue (show_nat k) = int k"
proof -
  have "digitsValue (show_nat k) = sint (word_of_int (int k) :: 32 word)"
    by (simp only: digitsValue_def digits_word_show_nat of_int_of_nat_eq)
  also have "\<dots> = signed_take_bit 31 (int k)"
    by (simp only: sint_sbintrunc') simp
  also have "\<dots> = int k"
    using assms by (intro signed_take_bit_int_eq_self) simp_all
  finally show ?thesis .
qed

lemma show_int_octet:
  assumes "0 \<le> x" "x < 256"
  shows "digitsValue (show_int x) = x" "CHR ''.'' \<notin> set (show_int x)" "show_int x \<noteq> []"
proof -
  have "nat x < 2 ^ 31" using assms by simp
  then have "digitsValue (show_nat (nat x)) = int (nat x)" by (rule digitsValue_show_nat)
  then show "digitsValue (show_int x) = x" using assms by (simp add: show_int_def)
  show "CHR ''.'' \<notin> set (show_int x)" using assms by (simp add: show_int_def show_nat_no_dot)
  show "show_int x \<noteq> []" using assms by (simp add: show_int_def show_nat_not_Nil)
qed

lemma decimal_chars:
  "char_of (48::nat) = CHR ''0''" "char_of (49::nat) = CHR ''1''" "char_of (50::nat) = CHR ''2''"
  "char_of (51::nat) = CHR ''3''" "char_of (52::nat) = CHR ''4''" "char_of (53::nat) = CHR ''5''"
  "char_of (54::nat) = CHR ''6''" "char_of (55::nat) = CHR ''7''" "char_of (56::nat) = CHR ''8''"
  "char_of (57::nat) = CHR ''9''"
  by code_simp+

lemma parseIPOctets_quadText:
  assumes "quad a b c d"
  shows "parseIPOctets (quadText a b c d) = [a, b, c, d]"
proof -
  from assms have o: "0 \<le> a" "a < 256" "0 \<le> b" "b < 256" "0 \<le> c" "c < 256" "0 \<le> d" "d < 256"
    by (simp_all add: quad_def octet_def)
  have "parseIPOctets (show_int a @ CHR ''.'' # show_int b @ CHR ''.'' # show_int c @ CHR ''.'' # show_int d)
      = [digitsValue (show_int a), digitsValue (show_int b), digitsValue (show_int c),
         digitsValue (show_int d)]"
    by (rule parseIPOctets_dotted) (simp_all add: show_int_octet o)
  then show ?thesis
    by (simp add: quadText_def show_int_octet o)
qed

text \<open>
  Claim C6. For dotted quads A and B (every octet between 0 and 255), each of the three
  address comparisons of the programs holds exactly when the 32-bit composite
  \<open>(o1<<24)|(o2<<16)|(o3<<8)|o4\<close> of A is below that of B: \<^verbatim>\<open>IPKey::operator<\<close> of
  Act3.4; \<^verbatim>\<open>compareIPs\<close> of Act5.2 on the decimal texts of A and B, which
  \<^verbatim>\<open>parseIPOctets\<close> reads back to the four octets, and on any other two texts that parse
  to these octets; and \<^verbatim>\<open>lessEntry\<close> of Act2.3, whose decision rests on time and reason
  only when the composites are equal. In particular, with equal first three octets and a
  smaller fourth octet the composite is smaller, whatever the lexicographic order of the
  texts is.
\<close>

theorem numeric_ip_order:
  assumes "quad a1 a2 a3 a4" "quad b1 b2 b3 b4"
  shows "(IPKey_less \<lparr>IPKey.ip1 = a1, IPKey.ip2 = a2, IPKey.ip3 = a3, IPKey.ip4 = a4\<rparr>
            \<lparr>IPKey.ip1 = b1, IPKey.ip2 = b2, IPKey.ip3 = b3, IPKey.ip4 = b4\<rparr>
          \<longleftrightarrow> ipVal a1 a2 a3 a4 < ipVal b1 b2 b3 b4)
    \<and> parseIPOctets (quadText a1 a2 a3 a4) = [a1, a2, a3, a4]
    \<and> parseIPOctets (quadText b1 b2 b3 b4) = [b1, b2, b3, b4]
    \<and> (compareIPs (quadText a1 a2 a3 a4) (quadText b1 b2 b3 b4)
          \<longleftrightarrow> ipVal a1 a2 a3 a4 < ipVal b1 b2 b3 b4)
    \<and> (parseIPOctets s = [a1, a2, a3, a4] \<and> parseIPOctets t = [b1, b2, b3, b4]
          \<longrightarrow> (compareIPs s t \<longleftrightarrow> ipVal a1 a2 a3 a4 < ipVal b1 b2 b3 b4))
    \<and> (ip1 x = a1 \<and> ip2 x = a2 \<and> ip3 x = a3 \<and> ip4 x = a4 \<and>
        ip1 y = b1 \<and> ip2 y = b2 \<and> ip3 y = b3 \<and> ip4 y = b4
          \<longrightarrow> (lessEntry x y \<longleftrightarrow> entryVal x < entryVal y \<or>
                (entryVal x = entryVal y \<and>
                  (if totalTime x \<noteq> totalTime y then totalTime x < totalTime y
                   else reason x < reason y))))
    \<and> (a1 = b1 \<and> a2 = b2 \<and> a3 = b3 \<and> a4 < b4
          \<longrightarrow> ipVal a1 a2 a3 a4 < ipVal b1 b2 b3 b4)"
proof -
  have oa: "octet a1" "octet a2" "octet a3" "octet a4"
    and ob: "octet b1" "octet b2" "octet b3" "octet b4"
    using assms by (simp_all add: quad_def)
  note lt = ipVal_less_iff [OF oa ob]
  note eqv = ipVal_eq_iff [OF oa ob]
  have key: "IPKey_less \<lparr>IPKey.ip1 = a1, IPKey.ip2 = a2, IPKey.ip3 = a3, IPKey.ip4 = a4\<rparr>
            \<lparr>IPKey.ip1 = b1, IPKey.ip2 = b2, IPKey.ip3 = b3, IPKey.ip4 = b4\<rparr>
          \<longleftrightarrow> ipVal a1 a2 a3 a4 < ipVal b1 b2 b3 b4"
    unfolding lt by (simp add: IPKey_less_def)
  have cmp: "compareIPs s t \<longleftrightarrow> ipVal a1 a2 a3 a4 < ipVal b1 b2 b3 b4"
    if "parseIPOctets s = [a1, a2, a3, a4]" "parseIPOctets t = [b1, b2, b3, b4]"
    unfolding lt compareIPs_def that by (rule compareIPs_loop_quads)
  have ent: "lessEntry x y \<longleftrightarrow> entryVal x < entryVal y \<or>
                (entryVal x = entryVal y \<and>
                  (if totalTime x \<noteq> totalTime y then totalTime x < totalTime y
                   else reason x < reason y))"
    if "ip1 x = a1" "ip2 x = a2" "ip3 x = a3" "ip4 x = a4"
       "ip1 y = b1" "ip2 y = b2" "ip3 y = b3" "ip4 y = b4"
    unfolding entryVal_def that lt eqv by (auto simp: lessEntry_def that)
  have last: "ipVal a1 a2 a3 a4 < ipVal b1 b2 b3 b4"
    if "a1 = b1" "a2 = b2" "a3 = b3" "a4 < b4"
    unfolding lt using that by simp
  have pa: "parseIPOctets (quadText a1 a2 a3 a4) = [a1, a2, a3, a4]"
    using assms(1) by (rule parseIPOctets_quadText)
  have pb: "parseIPOctets (quadText b1 b2 b3 b4) = [b1, b2, b3, b4]"
    using assms(2) by (rule parseIPOctets_quadText)
  have qt: "compareIPs (quadText a1 a2 a3 a4) (quadText b1 b2 b3 b4)
          \<longleftrightarrow> ipVal a1 a2 a3 a4 < ipVal b1 b2 b3 b4"
    unfolding lt compareIPs_def pa pb by (rule compareIPs_loop_quads)
  show ?thesis using key pa pb qt cmp ent last by blast
qed

text \<open>
  The addresses 1.1.1.20 and 1.1.1.100: the text of the first is the greater one in the
  lexicographic order, and the comparison of the program puts it first.
\<close>

theorem numeric_ip_order_witness:
  "quad 1 1 1 20 \<and> quad 1 1 1 100
   \<and> quadText 1 1 1 20 = ''1.1.1.20'' \<and> quadText 1 1 1 100 = ''1.1.1.100''
   \<and> parseIPOctets ''1.1.1.20'' = [1, 1, 1, 20] \<and> parseIPOctets ''1.1.1.100'' = [1, 1, 1, 100]
   \<and> compareIPs ''1.1.1.20'' ''1.1.1.100''
   \<and> \<not> compareIPs ''1.1.1.100'' ''1.1.1.20''
   \<and> ipVal 1 1 1 20 < ipVal 1 1 1 100
   \<and> \<not> ''1.1.1.20'' < ''1.1.1.100''
   \<and> IPKey_less \<lparr>IPKey.ip1 = 1, IPKey.ip2 = 1, IPKey.ip3 = 1, IPKey.ip4 = 20\<rparr>
            \<lparr>IPKey.ip1 = 1, IPKey.ip2 = 1, IPKey.ip3 = 1, IPKey.ip4 = 100\<rparr>"
proof -
  have q: "quad 1 1 1 20" "quad 1 1 1 100"
    by (simp_all add: quad_def octet_def)
  have t: "quadText 1 1 1 20 = ''1.1.1.20''" "quadText 1 1 1 100 = ''1.1.1.100''"
    by (simp_all add: quadText_def show_int_def show_nat.simps decimal_chars)
  have str: "\<not> ''1.1.1.20'' < ''1.1.1.100''"
    by simp
  have v: "ipVal 1 1 1 20 < ipVal 1 1 1 100" "\<not> ipVal 1 1 1 100 < ipVal 1 1 1 20"
    by (simp_all add: ipVal_def)
  show ?thesis
    using numeric_ip_order [OF q, of "''1.1.1.20''" "''1.1.1.100''"]
      numeric_ip_order [OF q(2,1), of "''1.1.1.100''" "''1.1.1.20''"] q t str v
    by simp
qed

section \<open>Act2.3: the merge sort\<close>

lemma lessEntry_iff_key: "lessEntry a b \<longleftrightarrow> entryKey a < entryKey b"
  by (auto simp: lessEntry_def entryKey_def less_prod_def)

lemma sameKey_iff_key: "sameKey k e \<longleftrightarrow> entryKey e = entryKey k"
  by (auto simp: sameKey_def lessEntry_iff_key)

lemma ascending_iff_key: "ascending xs \<longleftrightarrow> sorted (map entryKey xs)"
  by (simp add: ascending_def sorted_map lessEntry_iff_key not_less)

lemma mset_mergeSortedLists: "mset (mergeSortedLists xs ys) = mset xs + mset ys"
  by (induction xs ys rule: mergeSortedLists.induct) auto

lemma set_mergeSortedLists: "set (mergeSortedLists xs ys) = set xs \<union> set ys"
  by (induction xs ys rule: mergeSortedLists.induct) auto

lemma sorted_mergeSortedLists:
  "sorted (map entryKey xs) \<Longrightarrow> sorted (map entryKey ys)
     \<Longrightarrow> sorted (map entryKey (mergeSortedLists xs ys))"
  by (induction xs ys rule: mergeSortedLists.induct)
    (auto simp: set_mergeSortedLists lessEntry_iff_key)

lemma filter_mergeSortedLists:
  "sorted (map entryKey ys)
     \<Longrightarrow> filter (\<lambda>e. entryKey e = k) (mergeSortedLists xs ys)
       = filter (\<lambda>e. entryKey e = k) ys @ filter (\<lambda>e. entryKey e = k) xs"
proof (induction xs ys rule: mergeSortedLists.induct)
  case (3 a first b second)
  show ?case
  proof (cases "lessEntry a b")
    case True
    then have ab: "entryKey a < entryKey b" by (simp add: lessEntry_iff_key)
    have none: "filter (\<lambda>e. entryKey e = k) (b # second) = []" if "entryKey a = k"
    proof -
      have "\<forall>e\<in>set (b # second). entryKey b \<le> entryKey e"
        using "3.prems" by auto
      then have "\<forall>e\<in>set (b # second). entryKey e \<noteq> k"
        using ab that by auto
      then show ?thesis by (simp add: filter_empty_conv)
    qed
    from True "3.IH"(1) "3.prems"
    have IH: "filter (\<lambda>e. entryKey e = k) (mergeSortedLists first (b # second))
       = filter (\<lambda>e. entryKey e = k) (b # second) @ filter (\<lambda>e. entryKey e = k) first"
      by simp
    show ?thesis
    proof (cases "entryKey a = k")
      case True
      with none IH \<open>lessEntry a b\<close> show ?thesis by simp
    next
      case False
      with IH \<open>lessEntry a b\<close> show ?thesis by simp
    qed
  next
    case False
    with "3.IH"(2) "3.prems"
    have IH: "filter (\<lambda>e. entryKey e = k) (mergeSortedLists (a # first) second)
       = filter (\<lambda>e. entryKey e = k) second @ filter (\<lambda>e. entryKey e = k) (a # first)"
      by simp
    with False show ?thesis by simp
  qed
qed simp_all

lemma mergeSortList_short:
  "start = [] \<or> tl start = [] \<Longrightarrow> mergeSortList start = start"
  by (simp add: mergeSortList.simps [of start])

lemma mergeSortList_split:
  "\<not> (start = [] \<or> tl start = []) \<Longrightarrow>
     mergeSortList start
       = mergeSortedLists (mergeSortList (take (Suc (findMiddle 0 start)) start))
           (mergeSortList (drop (Suc (findMiddle 0 start)) start))"
  by (simp add: mergeSortList.simps [of start] Let_def)

lemma mset_mergeSortList: "mset (mergeSortList xs) = mset xs"
proof (induction xs rule: mergeSortList.induct)
  case (1 start)
  show ?case
  proof (cases "start = [] \<or> tl start = []")
    case True
    then show ?thesis by (simp add: mergeSortList_short)
  next
    case False
    let ?m = "Suc (findMiddle 0 start)"
    have "mset (mergeSortList start)
        = mset (mergeSortList (take ?m start)) + mset (mergeSortList (drop ?m start))"
      using False by (simp add: mergeSortList_split mset_mergeSortedLists)
    also have "\<dots> = mset (take ?m start) + mset (drop ?m start)"
      using False "1.IH" by simp
    also have "\<dots> = mset start"
      by (simp flip: mset_append)
    finally show ?thesis .
  qed
qed

lemma sorted_mergeSortList: "sorted (map entryKey (mergeSortList xs))"
proof (induction xs rule: mergeSortList.induct)
  case (1 start)
  show ?case
  proof (cases "start = [] \<or> tl start = []")
    case True
    then show ?thesis
      by (cases start) (auto simp: mergeSortList_short)
  next
    case False
    then show ?thesis
      using "1.IH" by (simp add: mergeSortList_split sorted_mergeSortedLists)
  qed
qed

lemma filter_mergeSortList:
  "filter (\<lambda>e. entryKey e = k) (mergeSortList xs) = rev (filter (\<lambda>e. entryKey e = k) xs)"
proof (induction xs rule: mergeSortList.induct)
  case (1 start)
  show ?case
  proof (cases "start = [] \<or> tl start = []")
    case True
    then show ?thesis
      by (cases start) (auto simp: mergeSortList_short)
  next
    case False
    let ?m = "Suc (findMiddle 0 start)"
    let ?f = "filter (\<lambda>e. entryKey e = k)"
    have "?f (mergeSortList start)
        = ?f (mergeSortList (drop ?m start)) @ ?f (mergeSortList (take ?m start))"
      using False
      by (simp add: mergeSortList_split filter_mergeSortedLists sorted_mergeSortList)
    also have "\<dots> = rev (?f (drop ?m start)) @ rev (?f (take ?m start))"
      using False "1.IH" by simp
    also have "\<dots> = rev (?f (take ?m start @ drop ?m start))"
      by (simp only: filter_append rev_append)
    finally show ?thesis by simp
  qed
qed

lemma lineA_lineB: "lineA \<noteq> lineB" "\<not> lessEntry lineA lineB" "\<not> lessEntry lineB lineA"
  by (simp_all add: lineA_def lineB_def fill_entry_def lessEntry_def)

text \<open>
  Claim C8, as the code has it. For every input list, \<^verbatim>\<open>mergeSortList\<close> returns the same
  multiset of entries in ascending order of the composite key (address octet by octet,
  then \<open>totalTime\<close>, then \<open>reason\<close>). Its merge step is a two-pointer merge that
  takes the head of the first half only when it is strictly less: merging two ascending
  lists gives an ascending list of the same entries in which the entries of any one
  composite key are those of the second list followed by those of the first. So the
  sort lists the entries of one composite key in the reverse of their input order.
\<close>

theorem mergeSortList_sorted_ties_reversed:
  "mset (mergeSortList xs) = mset xs
   \<and> ascending (mergeSortList xs)
   \<and> (ascending first \<and> ascending second \<longrightarrow>
        ascending (mergeSortedLists first second)
        \<and> mset (mergeSortedLists first second) = mset first + mset second
        \<and> filter (sameKey k) (mergeSortedLists first second)
            = filter (sameKey k) second @ filter (sameKey k) first)
   \<and> filter (sameKey k) (mergeSortList xs) = rev (filter (sameKey k) xs)"
proof -
  have same: "sameKey k = (\<lambda>e. entryKey e = entryKey k)"
    by (rule ext) (simp add: sameKey_iff_key)
  show ?thesis
    unfolding same ascending_iff_key
    by (simp add: mset_mergeSortList sorted_mergeSortList filter_mergeSortList
        mset_mergeSortedLists sorted_mergeSortedLists filter_mergeSortedLists)
qed

theorem mergeSortList_sorted_ties_reversed_witness:
  "ascending [lineA] \<and> ascending [lineB]
   \<and> filter (sameKey lineA) (mergeSortedLists [lineA] [lineB]) = [lineB, lineA]
   \<and> filter (sameKey lineA) (mergeSortList [lineA, lineB]) = [lineB, lineA]"
proof -
  have asc: "ascending [lineA]" "ascending [lineB]"
    by (simp_all add: ascending_def)
  have same: "sameKey lineA lineA" "sameKey lineA lineB"
    by (simp_all add: sameKey_def lineA_lineB) (simp add: lessEntry_def)
  note inst = mergeSortList_sorted_ties_reversed [of "[lineA, lineB]" "[lineA]" "[lineB]" lineA]
  from inst asc
  have "filter (sameKey lineA) (mergeSortedLists [lineA] [lineB])
      = filter (sameKey lineA) [lineB] @ filter (sameKey lineA) [lineA]"
    by blast
  moreover from inst
  have "filter (sameKey lineA) (mergeSortList [lineA, lineB])
      = rev (filter (sameKey lineA) [lineA, lineB])"
    by blast
  ultimately show ?thesis
    using asc same by simp
qed

text \<open>
  The merge is not stable: of two lines with the same composite key, the one from the
  second half comes out before the one from the first half.
\<close>

theorem merge_stable_counterexample:
  "\<not> lessEntry lineA lineB \<and> \<not> lessEntry lineB lineA \<and> lineA \<noteq> lineB
   \<and> mergeSortedLists [lineA] [lineB] = [lineB, lineA]
   \<and> mergeSortList [lineA, lineB] = [lineB, lineA]"
  by (simp add: lineA_lineB mergeSortList.simps)

section \<open>Act2.3: the range query\<close>

lemma printBack_to_head:
  "e < length xs \<Longrightarrow> printBack xs e 0 = rev (map originLine (take (Suc e) xs))"
proof (induction e)
  case 0
  then show ?case by (cases xs) auto
next
  case (Suc e)
  then show ?case by (simp add: take_Suc_conv_app_nth [of "Suc e"])
qed

lemma printBack_before_start:
  "e < length xs \<Longrightarrow> e < s \<Longrightarrow> printBack xs e s = rev (map originLine (take (Suc e) xs))"
proof (induction e)
  case 0
  then show ?case by (cases xs) auto
next
  case (Suc e)
  then show ?case by (simp add: take_Suc_conv_app_nth [of "Suc e"])
qed

lemma printBack_interval:
  "e < length xs \<Longrightarrow> s \<le> e \<Longrightarrow> printBack xs e s = rev (map originLine (drop s (take (Suc e) xs)))"
proof (induction e)
  case 0
  then show ?case by (cases xs) auto
next
  case (Suc e)
  show ?case
  proof (cases "s = Suc e")
    case True
    with Suc.prems show ?thesis
      by (simp add: take_Suc_conv_app_nth [of "Suc e"])
  next
    case False
    with Suc show ?thesis
      by (simp add: take_Suc_conv_app_nth [of "Suc e"])
  qed
qed

lemma lowerBoundIP_head:
  "xs \<noteq> [] \<Longrightarrow> k \<le> entryVal (hd xs) \<Longrightarrow> lowerBoundIP xs k = Some 0"
  by (cases xs) auto

lemma upperBoundIP_None:
  "\<forall>e\<in>set xs. entryVal e \<le> k \<Longrightarrow> upperBoundIP xs k = None"
  by (induction xs) (auto simp: not_less)

lemma rangeQuery_full:
  assumes "xs \<noteq> []" "\<forall>e\<in>set xs. lo \<le> entryVal e" "\<forall>e\<in>set xs. entryVal e \<le> hi"
    and keys: "(key1, key2) = (lo, hi) \<or> (key1, key2) = (hi, lo)"
  shows "rangeQuery xs key1 key2 = rev (map originLine xs)"
proof -
  have "lo \<le> entryVal (hd xs)" "entryVal (hd xs) \<le> hi"
    using assms by simp_all
  then have "lo \<le> hi" by simp
  with keys have sk: "(if key1 > key2 then key2 else key1) = lo"
    and ek: "(if key1 > key2 then key1 else key2) = hi"
    by auto
  have lb: "lowerBoundIP xs lo = Some 0"
    using assms by (simp add: lowerBoundIP_head)
  have ub: "upperBoundIP xs hi = None"
    using assms by (simp add: upperBoundIP_None)
  show ?thesis
    unfolding rangeQuery_def sk ek Let_def lb using assms(1)
    by (simp add: ub printBack_to_head)
qed

text \<open>
  Claim C7 at the log of 1.0.0.1 and 1.0.0.9 with the query 1.0.0.3 to 1.0.0.5: no stored
  address lies between the two keys, the first element not below the low key and the first
  element above the high key are both the line of 1.0.0.9, and the program prints the line
  of 1.0.0.1.
\<close>

theorem rangeQuery_prints_outside_range:
  "main_range [lineC, lineD] (1, 0, 0, 3) (1, 0, 0, 5) = [''Jul 18 07:53:22 1.0.0.1:80 ok'']
   \<and> filter (\<lambda>e. ipVal 1 0 0 3 \<le> entryVal e \<and> entryVal e \<le> ipVal 1 0 0 5) [lineC, lineD] = []
   \<and> lowerBoundIP [lineC, lineD] (ipVal 1 0 0 3) = Some 1
   \<and> upperBoundIP (drop 1 [lineC, lineD]) (ipVal 1 0 0 5) = Some 0"
proof -
  have sorted: "mergeSortList [lineC, lineD] = [lineC, lineD]"
    by (simp add: mergeSortList.simps lineC_def lineD_def fill_entry_def lessEntry_def)
  have vals: "entryVal lineC = 16777217" "entryVal lineD = 16777225"
    "ipVal 1 0 0 3 = 16777219" "ipVal 1 0 0 5 = 16777221"
    by (simp_all add: entryVal_def ipVal_def lineC_def lineD_def fill_entry_def)
  have line: "originLine lineC = ''Jul 18 07:53:22 1.0.0.1:80 ok''"
    by (simp add: lineC_def fill_entry_def)
  show ?thesis
    by (simp add: main_range_def rangeQuery_def sorted vals line)
qed

section \<open>Act3.4: the five most frequent addresses\<close>

lemma less_prod_lin:
  fixes a b :: "'a::linorder"
  shows "(a, x) < (b, y) \<longleftrightarrow> (if a \<noteq> b then a < b else x < y)"
  by (auto simp: less_prod_def)

lemma IPKey_less_iff: "IPKey_less a b \<longleftrightarrow> ipTuple a < ipTuple b"
  by (simp add: IPKey_less_def ipTuple_def less_prod_lin del: less_prod_simp)

lemma ipTuple_inj: "ipTuple a = ipTuple b \<longleftrightarrow> a = b"
  by (cases a; cases b) (auto simp: ipTuple_def)

lemma byCount_iff: "byCount a b \<longleftrightarrow> groupRank a < groupRank b"
  by (simp add: byCount_def groupRank_def less_prod_lin del: less_prod_simp)

lemma before_groupRank: "before = (\<lambda>a b. groupRank a < groupRank b)"
  by (intro ext)
    (auto simp add: before_def groupRank_def ipTuple_def less_prod_lin simp del: less_prod_simp)

lemma byCount_before: "byCount a b \<longleftrightarrow> before a b"
  by (simp only: before_groupRank byCount_iff)

lemma groupRank_key: "groupRank a = groupRank b \<Longrightarrow> key a = key b"
  by (cases "key a"; cases "key b") (auto simp: groupRank_def)

lemma ipTuple_ipKeyOf: "ipTuple (ipKeyOf E) = octetsOf E"
  by (simp add: ipTuple_def ipKeyOf_def octetsOf_def)

lemma ipKeyOf_eq_iff: "ipKeyOf E = k \<longleftrightarrow> octetsOf E = ipTuple k"
  by (simp only: ipTuple_ipKeyOf [symmetric] ipTuple_inj)

lemma octetsOf_image: "octetsOf ` A = ipTuple ` ipKeyOf ` A"
  by (simp add: image_image ipTuple_ipKeyOf)

lemma inj_ipTuple: "inj_on ipTuple A"
  by (rule inj_onI) (simp add: ipTuple_inj)

lemma lessEntry34_iff:
  "lessEntry34 a b \<longleftrightarrow> (totalTime a, reason a) < (totalTime b, reason b)"
  by (simp add: lessEntry34_def less_prod_lin del: less_prod_simp)

subsection \<open>The library sort\<close>

lemma mset_sort_insert: "mset (sort_insert cmp x xs) = add_mset x (mset xs)"
  by (induction xs) auto

lemma mset_insertion_sort: "mset (insertion_sort cmp xs) = mset xs"
  by (induction xs) (auto simp: insertion_sort_def mset_sort_insert)

lemma sort_insert_insort_key:
  fixes f :: "'a \<Rightarrow> 'b::linorder"
  assumes "\<And>a b. cmp a b \<longleftrightarrow> f a < f b"
  shows "sort_insert cmp x xs = insort_key f x xs"
  by (induction xs) (auto simp: assms)

lemma insertion_sort_sort_key:
  fixes f :: "'a \<Rightarrow> 'b::linorder"
  assumes "\<And>a b. cmp a b \<longleftrightarrow> f a < f b"
  shows "insertion_sort cmp xs = sort_key f xs"
  by (induction xs) (auto simp: insertion_sort_def sort_key_def sort_insert_insort_key [OF assms])

text \<open>The insertion sort meets the contract for every comparison that is the order of a key.\<close>

lemma insertion_sort_contract:
  fixes f :: "'a \<Rightarrow> 'b::linorder"
  assumes "\<And>a b. cmp a b \<longleftrightarrow> f a < f b"
  shows "std_sort_contract cmp (insertion_sort cmp)"
proof -
  have "sorted_wrt (\<lambda>a b. \<not> cmp b a) (insertion_sort cmp xs)" for xs
  proof -
    have "sorted (map f (sort_key f xs))" by (rule sorted_sort_key)
    then have "sorted_wrt (\<lambda>a b. f a \<le> f b) (sort_key f xs)"
      by (simp only: sorted_wrt_map)
    then show ?thesis
      by (simp add: insertion_sort_sort_key [OF assms] assms not_less)
  qed
  then show ?thesis
    by (simp add: std_sort_contract_def mset_insertion_sort)
qed

lemma insertion_sort_lessEntry34: "std_sort_contract lessEntry34 (insertion_sort lessEntry34)"
  by (rule insertion_sort_contract) (rule lessEntry34_iff)

lemma insertion_sort_byCount: "std_sort_contract byCount (insertion_sort byCount)"
  by (rule insertion_sort_contract) (rule byCount_iff)

lemma sorted_wrt_distinct:
  "sorted_wrt P xs \<Longrightarrow> distinct (map f xs) \<Longrightarrow> sorted_wrt (\<lambda>a b. P a b \<and> f a \<noteq> f b) xs"
  by (induction xs) auto

subsection \<open>The map\<close>

lemma keys_ipMap_push: "fst ` set (ipMap_push k E m) = insert k (fst ` set m)"
proof (induction m)
  case Nil
  then show ?case by simp
next
  case (Cons p m)
  obtain k' es where p: "p = (k', es)" by (cases p)
  have "k' = k" if "\<not> IPKey_less k k'" "\<not> IPKey_less k' k"
    using that by (simp add: IPKey_less_iff flip: ipTuple_inj)
  with Cons show ?case by (auto simp: p)
qed

lemma strictKeys_ipMap_push: "strictKeys m \<Longrightarrow> strictKeys (ipMap_push k E m)"
proof (induction m)
  case Nil
  then show ?case by (simp add: strictKeys_def)
next
  case (Cons p m)
  obtain k' es where p: "p = (k', es)" by (cases p)
  from Cons.prems have tl: "strictKeys m" and hd: "\<forall>q\<in>set m. IPKey_less k' (fst q)"
    by (auto simp: strictKeys_def p)
  show ?case
  proof (cases "IPKey_less k k'")
    case True
    then have "\<forall>q\<in>set m. IPKey_less k (fst q)"
      using hd by (auto simp: IPKey_less_iff)
    with True Cons.prems show ?thesis by (auto simp: strictKeys_def p)
  next
    case False
    show ?thesis
    proof (cases "IPKey_less k' k")
      case True
      have "\<forall>q\<in>set (ipMap_push k E m). IPKey_less k' (fst q)"
      proof
        fix q assume "q \<in> set (ipMap_push k E m)"
        then have "fst q \<in> insert k (fst ` set m)"
          using keys_ipMap_push [of k E m] by blast
        with True hd show "IPKey_less k' (fst q)" by auto
      qed
      with False True Cons.IH [OF tl] show ?thesis
        by (auto simp: strictKeys_def p)
    next
      case nless: False
      with False Cons.prems show ?thesis by (auto simp: strictKeys_def p)
    qed
  qed
qed

lemma strictKeys_distinct: "strictKeys m \<Longrightarrow> distinct (map fst m)"
  by (induction m) (auto simp: strictKeys_def IPKey_less_iff)

lemma map_of_ipMap_push:
  "strictKeys m \<Longrightarrow>
     map_of (ipMap_push k E m)
       = (map_of m)(k \<mapsto> (case map_of m k of None \<Rightarrow> [E] | Some es \<Rightarrow> es @ [E]))"
proof (induction m)
  case Nil
  then show ?case by simp
next
  case (Cons p m)
  obtain k' es where p: "p = (k', es)" by (cases p)
  from Cons.prems have tl: "strictKeys m" and hd: "\<forall>q\<in>set m. IPKey_less k' (fst q)"
    by (auto simp: strictKeys_def p)
  have same: "k' = k" if "\<not> IPKey_less k k'" "\<not> IPKey_less k' k"
    using that by (simp add: IPKey_less_iff flip: ipTuple_inj)
  show ?case
  proof (cases "IPKey_less k k'")
    case True
    then have "k \<noteq> k'" by (auto simp: IPKey_less_iff)
    moreover have "k \<notin> fst ` set m"
      using hd True by (auto simp: IPKey_less_iff)
    then have "map_of m k = None" by (simp add: map_of_eq_None_iff)
    ultimately show ?thesis using True by (auto simp: p)
  next
    case False
    show ?thesis
    proof (cases "IPKey_less k' k")
      case True
      then have "k \<noteq> k'" by (auto simp: IPKey_less_iff)
      with False True Cons.IH [OF tl] show ?thesis
        by (auto simp: p)
    next
      case nless: False
      with False same have "k' = k" by simp
      with False show ?thesis by (auto simp: p)
    qed
  qed
qed

lemma build_ipMap_snoc:
  "build_ipMap (lines @ [E]) = ipMap_push (ipKeyOf E) E (build_ipMap lines)"
  by (simp add: build_ipMap_def)

lemma strictKeys_build_ipMap: "strictKeys (build_ipMap lines)"
proof (induction lines rule: rev_induct)
  case Nil
  then show ?case by (simp add: build_ipMap_def strictKeys_def)
next
  case (snoc E lines)
  then show ?case by (simp add: build_ipMap_snoc strictKeys_ipMap_push)
qed

lemma map_of_build_ipMap:
  "map_of (build_ipMap lines) k
     = (if k \<in> ipKeyOf ` set lines then Some (filter (\<lambda>E. ipKeyOf E = k) lines) else None)"
proof (induction lines rule: rev_induct)
  case Nil
  then show ?case by (simp add: build_ipMap_def)
next
  case (snoc E lines)
  have "filter (\<lambda>E. ipKeyOf E = k) lines = []" if "k \<notin> ipKeyOf ` set lines"
    using that by (auto simp: filter_empty_conv)
  with snoc show ?case
    by (auto simp: build_ipMap_snoc map_of_ipMap_push strictKeys_build_ipMap)
qed

lemma keys_build_ipMap: "fst ` set (build_ipMap lines) = ipKeyOf ` set lines"
proof -
  have "fst ` set (build_ipMap lines) = dom (map_of (build_ipMap lines))"
    by (simp add: dom_map_of_conv_image_fst)
  also have "\<dots> = ipKeyOf ` set lines"
    by (auto simp: dom_def map_of_build_ipMap)
  finally show ?thesis .
qed

lemma build_ipMap_member:
  assumes "(k, es) \<in> set (build_ipMap lines)"
  shows "es = filter (\<lambda>E. ipKeyOf E = k) lines"
proof -
  have "distinct (map fst (build_ipMap lines))"
    by (simp add: strictKeys_build_ipMap strictKeys_distinct)
  with assms have "map_of (build_ipMap lines) k = Some es" by simp
  then show ?thesis by (simp add: map_of_build_ipMap split: if_splits)
qed

subsection \<open>The groups\<close>

lemma keys_ipDataList: "map key (ipDataList sortE lines) = map fst (build_ipMap lines)"
  by (simp add: ipDataList_def case_prod_beta)

lemma distinct_keys_ipDataList: "distinct (map key (ipDataList sortE lines))"
  by (simp add: keys_ipDataList strictKeys_build_ipMap strictKeys_distinct)

lemma ipDataList_member:
  assumes "std_sort_contract lessEntry34 sortE" "d \<in> set (ipDataList sortE lines)"
  shows "count d = int (length (filter (\<lambda>E. ipKeyOf E = key d) lines))"
    and "mset (entries d) = mset (filter (\<lambda>E. ipKeyOf E = key d) lines)"
    and "key d \<in> ipKeyOf ` set lines"
    and "sorted_wrt (\<lambda>a b. \<not> lessEntry34 b a) (entries d)"
proof -
  from assms(2) obtain k es where mem: "(k, es) \<in> set (build_ipMap lines)"
    and d: "d = \<lparr>key = k, entries = sortE es, count = int (length es)\<rparr>"
    by (auto simp: ipDataList_def)
  from assms(1) have c: "mset (sortE es) = mset es"
    "sorted_wrt (\<lambda>a b. \<not> lessEntry34 b a) (sortE es)"
    by (simp_all add: std_sort_contract_def)
  have es: "es = filter (\<lambda>E. ipKeyOf E = k) lines"
    using mem by (rule build_ipMap_member)
  show "count d = int (length (filter (\<lambda>E. ipKeyOf E = key d) lines))"
    using es by (simp add: d)
  show "mset (entries d) = mset (filter (\<lambda>E. ipKeyOf E = key d) lines)"
    using es c(1) by (simp add: d)
  have "k \<in> fst ` set (build_ipMap lines)" using mem by force
  then show "key d \<in> ipKeyOf ` set lines"
    by (simp add: keys_build_ipMap d)
  show "sorted_wrt (\<lambda>a b. \<not> lessEntry34 b a) (entries d)"
    using c(2) by (simp add: d)
qed

lemma mset_sortedGroups:
  "std_sort_contract byCount sortG \<Longrightarrow>
   mset (sortedGroups sortE sortG lines) = mset (ipDataList sortE lines)"
  by (simp add: sortedGroups_def std_sort_contract_def)

lemma set_sortedGroups:
  "std_sort_contract byCount sortG \<Longrightarrow>
   set (sortedGroups sortE sortG lines) = set (ipDataList sortE lines)"
  using mset_sortedGroups [of sortG sortE lines] by (metis set_mset_mset)

lemma distinct_keys_sortedGroups:
  assumes "std_sort_contract byCount sortG"
  shows "distinct (map key (sortedGroups sortE sortG lines))"
proof -
  have "mset (map key (sortedGroups sortE sortG lines)) = mset (map key (ipDataList sortE lines))"
    by (simp add: mset_sortedGroups [OF assms])
  then show ?thesis
    using distinct_keys_ipDataList [of sortE lines] by (metis mset_eq_imp_distinct_iff)
qed

lemma keys_sortedGroups:
  assumes "std_sort_contract byCount sortG"
  shows "key ` set (sortedGroups sortE sortG lines) = ipKeyOf ` set lines"
proof -
  have "key ` set (sortedGroups sortE sortG lines) = set (map key (ipDataList sortE lines))"
    by (simp add: set_sortedGroups [OF assms])
  also have "\<dots> = ipKeyOf ` set lines"
    by (simp add: keys_ipDataList keys_build_ipMap)
  finally show ?thesis .
qed

lemma length_sortedGroups:
  assumes "std_sort_contract byCount sortG"
  shows "length (sortedGroups sortE sortG lines) = card (octetsOf ` set lines)"
proof -
  let ?gs = "sortedGroups sortE sortG lines"
  have "length ?gs = length (map key ?gs)" by simp
  also have "\<dots> = card (set (map key ?gs))"
    using distinct_keys_sortedGroups [OF assms] by (rule distinct_card [symmetric])
  also have "\<dots> = card (ipKeyOf ` set lines)"
    by (simp add: keys_sortedGroups [OF assms])
  also have "\<dots> = card (ipTuple ` ipKeyOf ` set lines)"
    by (rule card_image [symmetric]) (rule inj_ipTuple)
  finally show ?thesis by (simp only: octetsOf_image)
qed

lemma sorted_wrt_sortedGroups:
  assumes "std_sort_contract byCount sortG"
  shows "sorted_wrt before (sortedGroups sortE sortG lines)"
proof -
  let ?gs = "sortedGroups sortE sortG lines"
  from assms have "sorted_wrt (\<lambda>a b. \<not> byCount b a) ?gs"
    by (simp add: sortedGroups_def std_sort_contract_def)
  then have "sorted_wrt (\<lambda>a b. \<not> byCount b a \<and> key a \<noteq> key b) ?gs"
    using distinct_keys_sortedGroups [OF assms] by (rule sorted_wrt_distinct)
  moreover have "before a b" if "\<not> byCount b a \<and> key a \<noteq> key b" for a b
  proof -
    from that have "groupRank a \<le> groupRank b" "groupRank a \<noteq> groupRank b"
      using groupRank_key [of a b] by (auto simp only: byCount_iff not_less)
    then show ?thesis by (simp only: before_groupRank less_le simp_thms)
  qed
  ultimately show ?thesis
    by (rule sorted_wrt_mono_rel [rotated]) blast
qed

lemma sorted_wrt_before_unique:
  assumes c: "std_sort_contract byCount sortG"
    and "mset ys = mset (ipDataList sortE lines)" "sorted_wrt before ys"
  shows "ys = sortedGroups sortE sortG lines"
proof -
  let ?gs = "sortedGroups sortE sortG lines"
  have m: "mset ys = mset ?gs" using assms(2) by (simp add: mset_sortedGroups [OF c])
  then have sets: "set ys = set ?gs" by (metis set_mset_mset)
  have strict: "sorted_wrt (<) (map groupRank zs)" if "sorted_wrt before zs" for zs
    using that by (simp only: sorted_wrt_map before_groupRank)
  have s1: "sorted_wrt (<) (map groupRank ys)" using assms(3) by (rule strict)
  have s2: "sorted_wrt (<) (map groupRank ?gs)"
    using sorted_wrt_sortedGroups [OF c] by (rule strict)
  have "inj_on key (set ?gs)"
    using distinct_keys_sortedGroups [OF c, of sortE lines] by (simp add: distinct_map)
  then have inj: "inj_on groupRank (set ys \<union> set ?gs)"
    unfolding sets by (auto intro!: inj_onI dest: groupRank_key inj_onD)
  from s1 s2 have "sorted (map groupRank ys)" "distinct (map groupRank ys)"
    "sorted (map groupRank ?gs)" "distinct (map groupRank ?gs)"
    by (simp_all only: strict_sorted_iff)
  with inj sets show ?thesis
    by (intro map_sorted_distinct_set_unique [of groupRank])
qed

text \<open>
  Claim C5. For every log, and whatever the library sort does with elements that its
  comparison does not separate, the groups that the query ranks are one per distinct
  address (the four octets of a line), each with the lines of its address, and their
  number as its count. After the sort every group stands before every group with fewer
  accesses, and before every group with as many accesses and a numerically smaller address
  (octet by octet, left to right). The output is the lines of exactly the first
  min(5, number of distinct addresses) groups. The order of the groups is the only one
  with this property.
\<close>

theorem top5_order:
  assumes "std_sort_contract lessEntry34 sortE" "std_sort_contract byCount sortG"
  shows "sorted_wrt before (sortedGroups sortE sortG lines)
   \<and> distinct (map (\<lambda>d. ipTuple (key d)) (sortedGroups sortE sortG lines))
   \<and> (\<lambda>d. ipTuple (key d)) ` set (sortedGroups sortE sortG lines) = octetsOf ` set lines
   \<and> length (sortedGroups sortE sortG lines) = card (octetsOf ` set lines)
   \<and> (\<forall>d\<in>set (sortedGroups sortE sortG lines).
         count d = int (length (filter (\<lambda>E. octetsOf E = ipTuple (key d)) lines))
         \<and> mset (entries d) = mset (filter (\<lambda>E. octetsOf E = ipTuple (key d)) lines))
   \<and> top5 sortE sortG lines = concat (map (\<lambda>d. map originLine (entries d))
         (take (min 5 (card (octetsOf ` set lines))) (sortedGroups sortE sortG lines)))
   \<and> (\<forall>ys. mset ys = mset (ipDataList sortE lines) \<and> sorted_wrt before ys
          \<longrightarrow> ys = sortedGroups sortE sortG lines)"
proof -
  let ?gs = "sortedGroups sortE sortG lines"
  note cG = assms(2)
  have order: "sorted_wrt before ?gs"
    using cG by (rule sorted_wrt_sortedGroups)
  have "distinct (map ipTuple (map key ?gs))"
    using distinct_keys_sortedGroups [OF cG] by (simp only: distinct_map inj_ipTuple simp_thms)
  then have dist: "distinct (map (\<lambda>d. ipTuple (key d)) ?gs)"
    by (simp add: comp_def)
  have "(\<lambda>d. ipTuple (key d)) ` set ?gs = ipTuple ` key ` set ?gs"
    by (simp add: image_image)
  then have keys: "(\<lambda>d. ipTuple (key d)) ` set ?gs = octetsOf ` set lines"
    by (simp only: keys_sortedGroups [OF cG] octetsOf_image)
  have len: "length ?gs = card (octetsOf ` set lines)"
    using cG by (rule length_sortedGroups)
  have members: "\<forall>d\<in>set ?gs.
         count d = int (length (filter (\<lambda>E. octetsOf E = ipTuple (key d)) lines))
         \<and> mset (entries d) = mset (filter (\<lambda>E. octetsOf E = ipTuple (key d)) lines)"
    unfolding set_sortedGroups [OF cG]
    using ipDataList_member(1,2) [OF assms(1)] by (simp add: ipKeyOf_eq_iff)
  have out: "top5 sortE sortG lines = concat (map (\<lambda>d. map originLine (entries d))
         (take (min 5 (card (octetsOf ` set lines))) ?gs))"
    by (simp add: top5_def Let_def len)
  have uniq: "\<forall>ys. mset ys = mset (ipDataList sortE lines) \<and> sorted_wrt before ys \<longrightarrow> ys = ?gs"
    using sorted_wrt_before_unique [OF cG] by blast
  from order dist keys len members out uniq show ?thesis by blast
qed

lemma top5_exampleLog:
  "top5 (insertion_sort lessEntry34) (insertion_sort byCount) exampleLog =
     [''Jul 18 07:53:23 1.9.9.4:80 ok'', ''Jul 18 07:53:25 1.9.9.4:81 ok'',
      ''Jul 18 07:53:22 1.2.3.4:80 ok'', ''Jul 18 07:53:24 1.2.3.4:81 ok'',
      ''Jul 18 07:53:26 10.0.0.5:80 ok'', ''Jul 18 07:53:29 2.0.0.1:80 ok'',
      ''Jul 18 07:53:28 1.9.3.4:80 ok'']"
  and groups_exampleLog:
  "map (\<lambda>d. (ipTuple (key d), count d))
       (sortedGroups (insertion_sort lessEntry34) (insertion_sort byCount) exampleLog) =
     [((1, 9, 9, 4), 2), ((1, 2, 3, 4), 2), ((10, 0, 0, 5), 1), ((2, 0, 0, 1), 1),
      ((1, 9, 3, 4), 1), ((1, 2, 9, 4), 1)]"
  by (simp_all add: top5_def Let_def sortedGroups_def ipDataList_def build_ipMap_def
      exampleLog_def fill_entry_def ipKeyOf_def IPKey_less_def insertion_sort_def
      lessEntry34_def total_time_def byCount_def ipTuple_def)

text \<open>
  The example log, run with the insertion sort: six addresses, of which 1.9.9.4 and 1.2.3.4
  have two lines and share the first octet and the last; the lines of the first five
  groups are written, and 1.2.9.4 is left out.
\<close>

theorem top5_order_witness:
  "std_sort_contract lessEntry34 (insertion_sort lessEntry34)
   \<and> std_sort_contract byCount (insertion_sort byCount)
   \<and> top5 (insertion_sort lessEntry34) (insertion_sort byCount) exampleLog =
     [''Jul 18 07:53:23 1.9.9.4:80 ok'', ''Jul 18 07:53:25 1.9.9.4:81 ok'',
      ''Jul 18 07:53:22 1.2.3.4:80 ok'', ''Jul 18 07:53:24 1.2.3.4:81 ok'',
      ''Jul 18 07:53:26 10.0.0.5:80 ok'', ''Jul 18 07:53:29 2.0.0.1:80 ok'',
      ''Jul 18 07:53:28 1.9.3.4:80 ok'']
   \<and> map (\<lambda>d. (ipTuple (key d), count d))
       (sortedGroups (insertion_sort lessEntry34) (insertion_sort byCount) exampleLog) =
     [((1, 9, 9, 4), 2), ((1, 2, 3, 4), 2), ((10, 0, 0, 5), 1), ((2, 0, 0, 1), 1),
      ((1, 9, 3, 4), 1), ((1, 2, 9, 4), 1)]
   \<and> card (octetsOf ` set exampleLog) = 6
   \<and> sorted_wrt before (sortedGroups (insertion_sort lessEntry34) (insertion_sort byCount) exampleLog)"
proof -
  let ?gs = "sortedGroups (insertion_sort lessEntry34) (insertion_sort byCount) exampleLog"
  note inst = top5_order [OF insertion_sort_lessEntry34 insertion_sort_byCount, of exampleLog]
  have "length (map (\<lambda>d. (ipTuple (key d), count d)) ?gs) = 6"
    by (simp only: groups_exampleLog) simp
  then have "length ?gs = 6" by simp
  with inst have card: "card (octetsOf ` set exampleLog) = 6" by simp
  from inst have "sorted_wrt before ?gs" by blast
  with card show ?thesis
    using insertion_sort_lessEntry34 insertion_sort_byCount top5_exampleLog groups_exampleLog
    by blast
qed

section \<open>Act5.2: the table of networks\<close>

lemma hashFunction_less: "0 < n \<Longrightarrow> hashFunction n k < n"
  by (simp add: hashFunction_def)

lemma probe_less: "0 < n \<Longrightarrow> probe n h d < n"
  by (simp add: probe_def)

lemma probe_0: "h < n \<Longrightarrow> probe n h 0 = h"
  by (simp add: probe_def)

lemma probe_Suc: "Suc (probe n h d) mod n = probe n h (Suc d)"
  by (simp add: probe_def mod_simps)

lemma probe_inj_le:
  assumes "d1 \<le> d2" "d2 < n" "probe n h d1 = probe n h d2"
  shows "d1 = d2"
proof -
  have "(h + d2) mod n = (h + d1) mod n"
    using assms(3) by (simp add: probe_def)
  moreover have "h + d1 \<le> h + d2" using assms(1) by simp
  ultimately have "n dvd (h + d2) - (h + d1)"
    by (simp add: mod_eq_dvd_iff_nat)
  then have "n dvd d2 - d1" by simp
  moreover have "d2 - d1 < n" using assms(2) by simp
  ultimately have "d2 - d1 = 0"
    by (meson dvd_imp_le not_less zero_less_iff_neq_zero)
  with assms(1) show ?thesis by simp
qed

lemma probe_inj:
  assumes "d1 < n" "d2 < n" "probe n h d1 = probe n h d2"
  shows "d1 = d2"
proof (cases "d1 \<le> d2")
  case True
  with assms show ?thesis by (intro probe_inj_le [of d1 d2 n h]) simp_all
next
  case False
  then have "d2 \<le> d1" by simp
  with assms have "d2 = d1" by (intro probe_inj_le [of d2 d1 n h]) simp_all
  then show ?thesis by simp
qed

lemma probe_full_turn: "h < n \<Longrightarrow> probe n h n = h"
  by (simp add: probe_def)

lemma probe_back_to_start:
  assumes "h < n" "d < n"
  shows "probe n h (Suc d) = h \<longleftrightarrow> Suc d = n"
proof
  assume eq: "probe n h (Suc d) = h"
  show "Suc d = n"
  proof (rule ccontr)
    assume "Suc d \<noteq> n"
    with assms(2) have lt: "Suc d < n" by simp
    have "probe n h 0 = h" using assms(1) by (rule probe_0)
    with eq have same: "probe n h 0 = probe n h (Suc d)" by (simp only:)
    have "0 \<le> Suc d" by simp
    then have "0 = Suc d" using lt same by (rule probe_inj_le)
    then show False by simp
  qed
next
  assume "Suc d = n"
  then have "probe n h (Suc d) = probe n h n" by (simp only:)
  also have "\<dots> = h" using assms(1) by (rule probe_full_turn)
  finally show "probe n h (Suc d) = h" .
qed

lemma probe_surj:
  assumes "0 < n" "h < n" "i < n"
  shows "\<exists>d<n. i = probe n h d"
proof -
  let ?d = "(i + n - h) mod n"
  have "?d < n" using assms by simp
  moreover have "probe n h ?d = i"
  proof -
    have "(h + (i + n - h) mod n) mod n = (h + (i + n - h)) mod n"
      by (simp add: mod_simps)
    also have "h + (i + n - h) = i + n" using assms by simp
    also have "(i + n) mod n = i" using assms by simp
    finally show ?thesis by (simp add: probe_def)
  qed
  ultimately show ?thesis by metis
qed

subsection \<open>The two loops along the probe sequence\<close>

lemma searchNetwork_loop_skip:
  assumes "h < n" "Suc d < n"
    "occupied (hashTable st (probe n h d))" "network (hashTable st (probe n h d)) \<noteq> k"
  shows "searchNetwork_loop n st k h (probe n h d) d
       = searchNetwork_loop n st k h (probe n h (Suc d)) (Suc d)"
proof -
  have "probe n h (Suc d) \<noteq> h"
    using assms(1,2) by (simp add: probe_back_to_start)
  with assms show ?thesis
    by (subst searchNetwork_loop.simps) (simp add: probe_Suc)
qed

lemma searchNetwork_loop_run:
  assumes "h < n" "D < n" "d \<le> D"
    "\<forall>d'<D. occupied (hashTable st (probe n h d')) \<and> network (hashTable st (probe n h d')) \<noteq> k"
  shows "searchNetwork_loop n st k h (probe n h d) d
       = searchNetwork_loop n st k h (probe n h D) D"
  using assms(3)
proof (induction "D - d" arbitrary: d)
  case 0
  then show ?case by simp
next
  case (Suc m)
  then have "d < D" and m: "m = D - Suc d" and le: "Suc d \<le> D" by simp_all
  with assms have "searchNetwork_loop n st k h (probe n h d) d
       = searchNetwork_loop n st k h (probe n h (Suc d)) (Suc d)"
    by (intro searchNetwork_loop_skip) simp_all
  also have "\<dots> = searchNetwork_loop n st k h (probe n h D) D"
    using m le by (rule Suc.hyps(1))
  finally show ?case .
qed

lemma searchNetwork_stops:
  assumes "0 < n" "stops n (hashTable st) k d"
  shows "searchNetwork n st k
       = (if occupied (hashTable st (probe n (hashFunction n k) d))
          then int (probe n (hashFunction n k) d) else - 1)"
proof -
  let ?h = "hashFunction n k"
  have h: "?h < n" using assms(1) by (rule hashFunction_less)
  from assms(2) have d: "d < n"
    and here: "\<not> occupied (hashTable st (probe n ?h d)) \<or> network (hashTable st (probe n ?h d)) = k"
    and before: "\<forall>d'<d. occupied (hashTable st (probe n ?h d')) \<and>
         network (hashTable st (probe n ?h d')) \<noteq> k"
    by (simp_all add: stops_def)
  have "searchNetwork n st k = searchNetwork_loop n st k ?h (probe n ?h 0) 0"
    using h by (simp add: searchNetwork_def probe_0)
  also have "\<dots> = searchNetwork_loop n st k ?h (probe n ?h d) d"
    using h d before by (intro searchNetwork_loop_run) simp_all
  also have "\<dots> = (if occupied (hashTable st (probe n ?h d)) then int (probe n ?h d) else - 1)"
    using d here by (subst searchNetwork_loop.simps) auto
  finally show ?thesis .
qed

lemma searchNetwork_allOthers:
  assumes "0 < n" "allOthers n (hashTable st) k"
  shows "searchNetwork n st k = - 1"
proof -
  let ?h = "hashFunction n k"
  have h: "?h < n" using assms(1) by (rule hashFunction_less)
  obtain D where D: "n = Suc D" using assms(1) by (cases n) auto
  from assms(2) have all: "\<forall>d<n. occupied (hashTable st (probe n ?h d)) \<and>
         network (hashTable st (probe n ?h d)) \<noteq> k"
    by (simp add: allOthers_def)
  have "searchNetwork n st k = searchNetwork_loop n st k ?h (probe n ?h 0) 0"
    using h by (simp add: searchNetwork_def probe_0)
  also have "\<dots> = searchNetwork_loop n st k ?h (probe n ?h D) D"
    using h D all by (intro searchNetwork_loop_run) simp_all
  also have "\<dots> = - 1"
  proof -
    have "probe n ?h (Suc D) = ?h"
      using h D by (simp add: probe_back_to_start)
    moreover have "occupied (hashTable st (probe n ?h D))"
      "network (hashTable st (probe n ?h D)) \<noteq> k"
      using all D by simp_all
    ultimately show ?thesis
      using D by (subst searchNetwork_loop.simps) (simp add: probe_Suc)
  qed
  finally show ?thesis .
qed

lemma insertOrUpdate_loop_skip:
  assumes "h < n" "Suc d < n"
    "occupied (hashTable st (probe n h d))" "network (hashTable st (probe n h d)) \<noteq> k"
  shows "insertOrUpdate_loop n st k ip h (probe n h d) d
       = insertOrUpdate_loop n st k ip h (probe n h (Suc d)) (Suc d)"
proof -
  have "probe n h (Suc d) \<noteq> h"
    using assms(1,2) by (simp add: probe_back_to_start)
  with assms show ?thesis
    by (subst insertOrUpdate_loop.simps) (simp add: probe_Suc)
qed

lemma insertOrUpdate_loop_run:
  assumes "h < n" "D < n" "d \<le> D"
    "\<forall>d'<D. occupied (hashTable st (probe n h d')) \<and> network (hashTable st (probe n h d')) \<noteq> k"
  shows "insertOrUpdate_loop n st k ip h (probe n h d) d
       = insertOrUpdate_loop n st k ip h (probe n h D) D"
  using assms(3)
proof (induction "D - d" arbitrary: d)
  case 0
  then show ?case by simp
next
  case (Suc m)
  then have "d < D" and m: "m = D - Suc d" and le: "Suc d \<le> D" by simp_all
  with assms have "insertOrUpdate_loop n st k ip h (probe n h d) d
       = insertOrUpdate_loop n st k ip h (probe n h (Suc d)) (Suc d)"
    by (intro insertOrUpdate_loop_skip) simp_all
  also have "\<dots> = insertOrUpdate_loop n st k ip h (probe n h D) D"
    using m le by (rule Suc.hyps(1))
  finally show ?case .
qed

lemma insertOrUpdate_loop_stops:
  assumes "0 < n" "stops n (hashTable st) k d"
  shows "insertOrUpdate_loop n st k ip (hashFunction n k) (hashFunction n k) 0
       = (True, written st (probe n (hashFunction n k) d) k ip)"
proof -
  let ?h = "hashFunction n k"
  have h: "?h < n" using assms(1) by (rule hashFunction_less)
  from assms(2) have d: "d < n"
    and here: "\<not> occupied (hashTable st (probe n ?h d)) \<or> network (hashTable st (probe n ?h d)) = k"
    and before: "\<forall>d'<d. occupied (hashTable st (probe n ?h d')) \<and>
         network (hashTable st (probe n ?h d')) \<noteq> k"
    by (simp_all add: stops_def)
  have "insertOrUpdate_loop n st k ip ?h ?h 0 = insertOrUpdate_loop n st k ip ?h (probe n ?h 0) 0"
    using h by (simp add: probe_0)
  also have "\<dots> = insertOrUpdate_loop n st k ip ?h (probe n ?h d) d"
    using h d before by (intro insertOrUpdate_loop_run) simp_all
  also have "\<dots> = (True, written st (probe n ?h d) k ip)"
    using d here by (subst insertOrUpdate_loop.simps) (auto simp: written_def)
  finally show ?thesis .
qed

lemma insertOrUpdate_loop_allOthers:
  assumes "0 < n" "allOthers n (hashTable st) k"
  shows "insertOrUpdate_loop n st k ip (hashFunction n k) (hashFunction n k) 0 = (False, st)"
proof -
  let ?h = "hashFunction n k"
  have h: "?h < n" using assms(1) by (rule hashFunction_less)
  obtain D where D: "n = Suc D" using assms(1) by (cases n) auto
  from assms(2) have all: "\<forall>d<n. occupied (hashTable st (probe n ?h d)) \<and>
         network (hashTable st (probe n ?h d)) \<noteq> k"
    by (simp add: allOthers_def)
  have "insertOrUpdate_loop n st k ip ?h ?h 0 = insertOrUpdate_loop n st k ip ?h (probe n ?h 0) 0"
    using h by (simp add: probe_0)
  also have "\<dots> = insertOrUpdate_loop n st k ip ?h (probe n ?h D) D"
    using h D all by (intro insertOrUpdate_loop_run) simp_all
  also have "\<dots> = (False, st)"
  proof -
    have "probe n ?h (Suc D) = ?h"
      using h D by (simp add: probe_back_to_start)
    moreover have "occupied (hashTable st (probe n ?h D))"
      "network (hashTable st (probe n ?h D)) \<noteq> k"
      using all D by simp_all
    ultimately show ?thesis
      using D by (subst insertOrUpdate_loop.simps) (simp add: probe_Suc)
  qed
  finally show ?thesis .
qed

lemma stops_or_allOthers: "allOthers n tbl k \<or> (\<exists>d. stops n tbl k d)"
proof (cases "allOthers n tbl k")
  case True
  then show ?thesis by simp
next
  case False
  let ?P = "\<lambda>d. d < n \<and> (\<not> occupied (tbl (probe n (hashFunction n k) d)) \<or>
         network (tbl (probe n (hashFunction n k) d)) = k)"
  from False have ex: "\<exists>d. ?P d" by (auto simp: allOthers_def)
  define d where "d = (LEAST d. ?P d)"
  have P: "?P d" unfolding d_def using ex by (rule LeastI_ex)
  have least: "\<not> ?P d'" if "d' < d" for d'
    using that unfolding d_def by (rule not_less_Least)
  have "stops n tbl k d"
    unfolding stops_def
  proof (intro conjI allI impI)
    show "d < n" using P by simp
    show "\<not> occupied (tbl (probe n (hashFunction n k) d)) \<or>
         network (tbl (probe n (hashFunction n k) d)) = k" using P by simp
  next
    fix d' assume "d' < d"
    with least [of d'] P
    show "occupied (tbl (probe n (hashFunction n k) d'))"
      and "network (tbl (probe n (hashFunction n k) d')) \<noteq> k"
      by auto
  qed
  then show ?thesis by blast
qed

lemma stops_unique:
  assumes "stops n tbl k d1" "stops n tbl k d2"
  shows "d1 = d2"
proof (rule ccontr)
  assume ne: "d1 \<noteq> d2"
  have False if lt: "a < b" and a: "stops n tbl k a" and b: "stops n tbl k b" for a b
  proof -
    from b lt have "occupied (tbl (probe n (hashFunction n k) a))"
      "network (tbl (probe n (hashFunction n k) a)) \<noteq> k"
      by (simp_all add: stops_def)
    moreover from a have "\<not> occupied (tbl (probe n (hashFunction n k) a)) \<or>
         network (tbl (probe n (hashFunction n k) a)) = k"
      by (simp add: stops_def)
    ultimately show False by simp
  qed
  from this [of d1 d2] this [of d2 d1] ne assms show False
    by (cases "d1 < d2") simp_all
qed

lemma stops_cong:
  assumes "\<And>j. occupied (tbl' j) = occupied (tbl j)" "\<And>j. network (tbl' j) = network (tbl j)"
  shows "stops n tbl' k d = stops n tbl k d"
  by (simp add: stops_def assms)

lemma chain_ok_cong:
  assumes "\<And>j. occupied (tbl' j) = occupied (tbl j)" "\<And>j. network (tbl' j) = network (tbl j)"
  shows "chain_ok n tbl' = chain_ok n tbl"
  by (simp add: chain_ok_def assms stops_cong [of tbl' tbl, OF assms])

lemma searchNetwork_found:
  assumes "table_inv n st" "i < n" "occupied (hashTable st i)" "network (hashTable st i) = k"
  shows "searchNetwork n st k = int i"
proof -
  from assms obtain d where i: "i = probe n (hashFunction n k) d"
    and st: "stops n (hashTable st) k d"
    by (auto simp: table_inv_def chain_ok_def)
  from assms(1) have "0 < n" by (simp add: table_inv_def)
  then have "searchNetwork n st k
       = (if occupied (hashTable st (probe n (hashFunction n k) d))
          then int (probe n (hashFunction n k) d) else - 1)"
    using st by (rule searchNetwork_stops)
  with i assms(3) show ?thesis by simp
qed

lemma key_unique:
  assumes "table_inv n st" "i < n" "occupied (hashTable st i)"
    "j < n" "occupied (hashTable st j)" "network (hashTable st j) = network (hashTable st i)"
  shows "j = i"
proof -
  have "searchNetwork n st (network (hashTable st i)) = int i"
    using assms(1,2,3) by (intro searchNetwork_found) simp_all
  moreover have "searchNetwork n st (network (hashTable st i)) = int j"
    using assms(1,4,5,6) by (intro searchNetwork_found) simp_all
  ultimately show ?thesis by simp
qed

lemma free_slot_not_allOthers:
  assumes "0 < n" "i < n" "\<not> occupied (tbl i)"
  shows "\<not> allOthers n tbl k"
proof
  assume all: "allOthers n tbl k"
  have "hashFunction n k < n" using assms(1) by (rule hashFunction_less)
  with assms obtain d where "d < n" "i = probe n (hashFunction n k) d"
    using probe_surj [of n "hashFunction n k" i] by blast
  with all have "occupied (tbl i)" by (simp add: allOthers_def)
  with assms(3) show False by simp
qed

lemma not_full_free_slot:
  assumes "table_inv n st" "itemCount st < int n"
  shows "\<exists>i<n. \<not> occupied (hashTable st i)"
proof (rule ccontr)
  assume "\<not> (\<exists>i<n. \<not> occupied (hashTable st i))"
  then have "{i. i < n \<and> occupied (hashTable st i)} = {..<n}" by auto
  then have "card {i. i < n \<and> occupied (hashTable st i)} = n" by simp
  with assms show False by (simp add: table_inv_def)
qed

lemma absent_stops_free:
  assumes "table_inv n st" "\<forall>i<n. occupied (hashTable st i) \<longrightarrow> network (hashTable st i) \<noteq> k"
    "stops n (hashTable st) k d"
  shows "\<not> occupied (hashTable st (probe n (hashFunction n k) d))"
proof
  assume occ: "occupied (hashTable st (probe n (hashFunction n k) d))"
  from assms(1) have "0 < n" by (simp add: table_inv_def)
  then have lt: "probe n (hashFunction n k) d < n" by (rule probe_less)
  from assms(3) occ have "network (hashTable st (probe n (hashFunction n k) d)) = k"
    by (simp add: stops_def)
  with assms(2) lt occ show False by blast
qed

lemma searchNetwork_absent:
  assumes "table_inv n st" "\<forall>i<n. occupied (hashTable st i) \<longrightarrow> network (hashTable st i) \<noteq> k"
  shows "searchNetwork n st k = - 1"
proof -
  from assms(1) have n: "0 < n" by (simp add: table_inv_def)
  from stops_or_allOthers [of n "hashTable st" k] show ?thesis
  proof
    assume "allOthers n (hashTable st) k"
    with n show ?thesis by (rule searchNetwork_allOthers)
  next
    assume "\<exists>d. stops n (hashTable st) k d"
    then obtain d where d: "stops n (hashTable st) k d" ..
    with assms have "\<not> occupied (hashTable st (probe n (hashFunction n k) d))"
      by (rule absent_stops_free)
    with searchNetwork_stops [OF n d] show ?thesis by simp
  qed
qed

lemma insertOrUpdate_full:
  "itemCount st \<ge> int n \<Longrightarrow> insertOrUpdate n st k ip = (False, st)"
  by (simp add: insertOrUpdate_def)

lemma insertOrUpdate_not_full:
  assumes "table_inv n st" "itemCount st < int n"
  shows "\<exists>d. stops n (hashTable st) k d \<and>
     insertOrUpdate n st k ip = (True, written st (probe n (hashFunction n k) d) k ip)"
proof -
  from assms(1) have n: "0 < n" by (simp add: table_inv_def)
  from assms obtain i where "i < n" "\<not> occupied (hashTable st i)"
    using not_full_free_slot by blast
  with n have "\<not> allOthers n (hashTable st) k" by (rule free_slot_not_allOthers)
  with stops_or_allOthers [of n "hashTable st" k]
  obtain d where d: "stops n (hashTable st) k d" by blast
  have "insertOrUpdate n st k ip
      = insertOrUpdate_loop n st k ip (hashFunction n k) (hashFunction n k) 0"
    using assms(2) by (simp add: insertOrUpdate_def)
  also have "\<dots> = (True, written st (probe n (hashFunction n k) d) k ip)"
    using n d by (rule insertOrUpdate_loop_stops)
  finally show ?thesis using d by blast
qed

lemma insertOrUpdate_True_iff:
  assumes "table_inv n st"
  shows "fst (insertOrUpdate n st k ip) \<longleftrightarrow> itemCount st < int n"
proof (cases "itemCount st < int n")
  case True
  with insertOrUpdate_not_full [OF assms True, of k ip] show ?thesis by auto
next
  case False
  then show ?thesis by (simp add: insertOrUpdate_full)
qed

subsection \<open>The invariant is kept\<close>

lemma occupied_updateSlot: "occupied (updateSlot e ip) = occupied e"
  by (simp add: updateSlot_def)

lemma network_updateSlot: "network (updateSlot e ip) = network e"
  by (simp add: updateSlot_def)

lemma table_inv_written_update:
  assumes "table_inv n st" "occupied (hashTable st i)"
  shows "table_inv n (written st i k ip)"
proof -
  let ?tbl' = "(hashTable st)(i := updateSlot (hashTable st i) ip)"
  have occ: "occupied (?tbl' j) = occupied (hashTable st j)" for j
    by (simp add: occupied_updateSlot)
  have net: "network (?tbl' j) = network (hashTable st j)" for j
    by (simp add: network_updateSlot)
  have w: "written st i k ip = st\<lparr>hashTable := ?tbl'\<rparr>"
    using assms(2) by (simp add: written_def)
  have "chain_ok n ?tbl' = chain_ok n (hashTable st)"
    using occ net by (rule chain_ok_cong)
  moreover have "{j. j < n \<and> occupied (?tbl' j)} = {j. j < n \<and> occupied (hashTable st j)}"
    using occ by simp
  ultimately show ?thesis
    using assms(1) unfolding w table_inv_def by simp
qed

lemma table_inv_written_create:
  assumes inv: "table_inv n st" and st: "stops n (hashTable st) k d"
    and i: "i = probe n (hashFunction n k) d" and free: "\<not> occupied (hashTable st i)"
  shows "table_inv n (written st i k ip)"
proof -
  let ?tbl = "hashTable st"
  let ?tbl' = "(hashTable st)(i := createSlot k ip)"
  from inv have n: "0 < n" and cnt: "itemCount st = int (card {j. j < n \<and> occupied (?tbl j)})"
    and chain: "chain_ok n ?tbl"
    by (simp_all add: table_inv_def)
  have i_lt: "i < n" unfolding i using n by (rule probe_less)
  have w: "written st i k ip = st\<lparr>hashTable := ?tbl', itemCount := itemCount st + 1\<rparr>"
    using free by (simp add: written_def)
  have set_eq: "{j. j < n \<and> occupied (?tbl' j)} = insert i {j. j < n \<and> occupied (?tbl j)}"
    using i_lt by (auto simp: createSlot_def)
  have "card {j. j < n \<and> occupied (?tbl' j)} = Suc (card {j. j < n \<and> occupied (?tbl j)})"
    unfolding set_eq using free by (subst card_insert_disjoint) simp_all
  then have cnt': "itemCount st + 1 = int (card {j. j < n \<and> occupied (?tbl' j)})"
    using cnt by simp
  have keep: "stops n ?tbl' k' d'"
    if s: "stops n ?tbl k' d'" and occ: "occupied (?tbl (probe n (hashFunction n k') d'))" for k' d'
  proof -
    have ne: "probe n (hashFunction n k') e \<noteq> i" if "e \<le> d'" for e
    proof (cases "e = d'")
      case True
      with occ free show ?thesis by auto
    next
      case False
      with that have "e < d'" by simp
      with s have "occupied (?tbl (probe n (hashFunction n k') e))" by (simp add: stops_def)
      with free show ?thesis by auto
    qed
    show ?thesis
      using s ne unfolding stops_def by (simp add: less_imp_le)
  qed
  have new: "stops n ?tbl' k d"
  proof -
    have ne: "probe n (hashFunction n k) e \<noteq> i" if "e < d" for e
    proof
      assume "probe n (hashFunction n k) e = i"
      then have "probe n (hashFunction n k) e = probe n (hashFunction n k) d" by (simp add: i)
      moreover have "d < n" using st by (simp add: stops_def)
      moreover have "e \<le> d" using that by simp
      ultimately have "e = d" by (intro probe_inj_le [of e d n "hashFunction n k"])
      with that show False by simp
    qed
    show ?thesis
      using st ne unfolding stops_def by (simp add: i [symmetric] createSlot_def)
  qed
  have "chain_ok n ?tbl'"
    unfolding chain_ok_def
  proof (intro allI impI)
    fix j assume j: "j < n" and occ: "occupied (?tbl' j)"
    show "\<exists>e. j = probe n (hashFunction n (network (?tbl' j))) e
        \<and> stops n ?tbl' (network (?tbl' j)) e"
    proof (cases "j = i")
      case True
      then have "network (?tbl' j) = k" by (simp add: createSlot_def)
      with True i new show ?thesis by auto
    next
      case False
      with occ have occj: "occupied (?tbl j)" and same: "?tbl' j = ?tbl j" by simp_all
      with chain j obtain e where e: "j = probe n (hashFunction n (network (?tbl j))) e"
        and se: "stops n ?tbl (network (?tbl j)) e"
        by (auto simp: chain_ok_def)
      from se have "stops n ?tbl' (network (?tbl j)) e"
        using occj e by (intro keep) simp_all
      with e same show ?thesis by auto
    qed
  qed
  with n cnt' show ?thesis
    unfolding w table_inv_def by simp
qed

lemma table_inv_written:
  assumes "table_inv n st" "stops n (hashTable st) k d"
  shows "table_inv n (written st (probe n (hashFunction n k) d) k ip)"
proof (cases "occupied (hashTable st (probe n (hashFunction n k) d))")
  case True
  with assms(1) show ?thesis by (rule table_inv_written_update)
next
  case False
  with assms show ?thesis by (intro table_inv_written_create [of n st k d]) simp_all
qed

lemma table_inv_initState: "0 < n \<Longrightarrow> table_inv n initState"
  by (simp add: table_inv_def initState_def emptySlot_def chain_ok_def)

lemma ipExists_iff: "ipExists xs ip \<longleftrightarrow> ip \<in> set xs"
  by (induction xs) auto

lemma accessesOf_snoc:
  "accessesOf (ops @ [(k, ip)]) k' = accessesOf ops k' + (if k' = k then 1 else 0)"
  by (simp add: accessesOf_def)

lemma set_ipsOf_snoc:
  "set (ipsOf (ops @ [(k, ip)]) k') = (if k' = k then insert ip (set (ipsOf ops k')) else set (ipsOf ops k'))"
  by (auto simp: ipsOf_def)

lemma slot_ok_other:
  assumes "slot_ok ops e" "network e \<noteq> k"
  shows "slot_ok (ops @ [(k, ip)]) e"
  using assms by (simp add: slot_ok_def accessesOf_snoc set_ipsOf_snoc)

lemma slot_ok_updateSlot:
  assumes "slot_ok ops e" "network e = k"
  shows "slot_ok (ops @ [(k, ip)]) (updateSlot e ip)"
proof (cases "ip \<in> set (uniqueIPs e)")
  case True
  then have u: "updateSlot e ip = e\<lparr>accessCount := accessCount e + 1\<rparr>"
    by (simp add: updateSlot_def ipExists_iff)
  from True assms have "insert ip (set (ipsOf ops k)) = set (ipsOf ops k)"
    by (auto simp: slot_ok_def)
  with assms show ?thesis
    unfolding u by (simp add: slot_ok_def accessesOf_snoc set_ipsOf_snoc)
next
  case False
  then have u: "updateSlot e ip = e\<lparr>accessCount := accessCount e + 1,
      uniqueIPs := ip # uniqueIPs e, connectionCount := connectionCount e + 1\<rparr>"
    by (simp add: updateSlot_def ipExists_iff addIP_def)
  from False assms show ?thesis
    unfolding u by (simp add: slot_ok_def accessesOf_snoc set_ipsOf_snoc)
qed

lemma slot_ok_createSlot:
  assumes "k \<notin> fst ` set ops"
  shows "slot_ok (ops @ [(k, ip)]) (createSlot k ip)"
proof -
  have "filter (\<lambda>op. fst op = k) ops = []"
    using assms by (auto simp: filter_empty_conv)
  then show ?thesis
    by (simp add: slot_ok_def createSlot_def addIP_def accessesOf_def ipsOf_def)
qed

lemma content_inv_written:
  assumes inv: "table_inv n st" and c: "content_inv n (hashTable st) ops"
    and st: "stops n (hashTable st) k d"
  shows "content_inv n (hashTable (written st (probe n (hashFunction n k) d) k ip)) (ops @ [(k, ip)])"
proof -
  let ?tbl = "hashTable st"
  let ?i = "probe n (hashFunction n k) d"
  let ?st' = "written st ?i k ip"
  let ?tbl' = "hashTable ?st'"
  from inv have n: "0 < n" by (simp add: table_inv_def)
  have i_lt: "?i < n" using n by (rule probe_less)
  from c have slots: "\<And>j. j < n \<Longrightarrow> occupied (?tbl j) \<Longrightarrow> slot_ok ops (?tbl j)"
    and keys: "\<And>k'. k' \<in> fst ` set ops \<Longrightarrow> \<exists>j<n. occupied (?tbl j) \<and> network (?tbl j) = k'"
    by (auto simp: content_inv_def)
  have other: "?tbl' j = ?tbl j" if "j \<noteq> ?i" for j
    using that by (simp add: written_def)
  have at_i: "occupied (?tbl' ?i)" "network (?tbl' ?i) = k" "slot_ok (ops @ [(k, ip)]) (?tbl' ?i)"
  proof -
    show "occupied (?tbl' ?i)"
      by (simp add: written_def occupied_updateSlot createSlot_def)
    show "network (?tbl' ?i) = k"
      using st by (auto simp: written_def network_updateSlot createSlot_def stops_def)
    show "slot_ok (ops @ [(k, ip)]) (?tbl' ?i)"
    proof (cases "occupied (?tbl ?i)")
      case True
      with st have "network (?tbl ?i) = k" by (simp add: stops_def)
      with slots [OF i_lt True] have "slot_ok (ops @ [(k, ip)]) (updateSlot (?tbl ?i) ip)"
        by (rule slot_ok_updateSlot)
      with True show ?thesis by (simp add: written_def)
    next
      case False
      have "k \<notin> fst ` set ops"
      proof
        assume "k \<in> fst ` set ops"
        then obtain j where j: "j < n" "occupied (?tbl j)" "network (?tbl j) = k"
          using keys by blast
        with inv obtain e where e: "j = probe n (hashFunction n k) e" "stops n ?tbl k e"
          by (auto simp: table_inv_def chain_ok_def)
        with st have "e = d" by (intro stops_unique [of n ?tbl k])
        with e j False show False by simp
      qed
      then have "slot_ok (ops @ [(k, ip)]) (createSlot k ip)" by (rule slot_ok_createSlot)
      with False show ?thesis by (simp add: written_def)
    qed
  qed
  have occ_iff: "occupied (?tbl' j) \<longleftrightarrow> j = ?i \<or> occupied (?tbl j)" for j
    using at_i(1) other [of j] by (cases "j = ?i") auto
  have part1: "slot_ok (ops @ [(k, ip)]) (?tbl' j)" if j: "j < n" and occ: "occupied (?tbl' j)" for j
  proof (cases "j = ?i")
    case True
    with at_i(3) show ?thesis by simp
  next
    case False
    with occ have occj: "occupied (?tbl j)" by (simp add: other)
    have "network (?tbl j) \<noteq> k"
    proof
      assume eq: "network (?tbl j) = k"
      with inv j occj obtain e where e: "j = probe n (hashFunction n k) e" "stops n ?tbl k e"
        by (auto simp: table_inv_def chain_ok_def)
      with st have "e = d" by (intro stops_unique [of n ?tbl k])
      with e False show False by simp
    qed
    with slots [OF j occj] have "slot_ok (ops @ [(k, ip)]) (?tbl j)"
      by (rule slot_ok_other)
    with False show ?thesis by (simp add: other)
  qed
  have part2: "\<exists>j<n. occupied (?tbl' j) \<and> network (?tbl' j) = k'"
    if "k' \<in> fst ` set (ops @ [(k, ip)])" for k'
  proof (cases "k' = k")
    case True
    with i_lt at_i show ?thesis by blast
  next
    case False
    with that have "k' \<in> fst ` set ops" by auto
    then obtain j where j: "j < n" "occupied (?tbl j)" "network (?tbl j) = k'"
      using keys by blast
    show ?thesis
    proof (cases "j = ?i")
      case True
      with j st False show ?thesis by (auto simp: stops_def)
    next
      case ne: False
      with j show ?thesis using other [of j] by auto
    qed
  qed
  show ?thesis
    unfolding content_inv_def using part1 part2 by blast
qed

lemma content_inv_initState: "content_inv n (hashTable initState) []"
  by (simp add: content_inv_def initState_def emptySlot_def)

subsection \<open>The ingestion loop\<close>

lemma ingest_append:
  "ingest n st (xs @ ys) = (case ingest n st xs of Inl e \<Rightarrow> Inl e | Inr st' \<Rightarrow> ingest n st' ys)"
proof (induction xs arbitrary: st)
  case Nil
  then show ?case by simp
next
  case (Cons t xs)
  show ?case
  proof (cases "extractNetwork (ipOfToken t) = []")
    case True
    then show ?thesis by (simp add: Cons.IH Let_def)
  next
    case False
    obtain ok st1 where r: "insertOrUpdate n st (extractNetwork (ipOfToken t)) (ipOfToken t) = (ok, st1)"
      by (cases "insertOrUpdate n st (extractNetwork (ipOfToken t)) (ipOfToken t)")
    with False show ?thesis by (cases ok) (simp_all add: Cons.IH Let_def)
  qed
qed

lemma opsOf_snoc:
  "opsOf (toks @ [t]) =
     (if extractNetwork (ipOfToken t) \<noteq> [] then opsOf toks @ [(extractNetwork (ipOfToken t), ipOfToken t)]
      else opsOf toks)"
  by (simp add: opsOf_def)

lemma ingest_one:
  assumes "table_inv n st" "ingest n st [t] = Inr st'"
  shows "(extractNetwork (ipOfToken t) = [] \<and> st' = st) \<or>
         (extractNetwork (ipOfToken t) \<noteq> [] \<and> itemCount st < int n \<and>
          (\<exists>d. stops n (hashTable st) (extractNetwork (ipOfToken t)) d \<and>
             st' = written st (probe n (hashFunction n (extractNetwork (ipOfToken t))) d)
                     (extractNetwork (ipOfToken t)) (ipOfToken t)))"
proof (cases "extractNetwork (ipOfToken t) = []")
  case True
  with assms(2) show ?thesis by (simp add: Let_def)
next
  case False
  let ?k = "extractNetwork (ipOfToken t)"
  show ?thesis
  proof (cases "itemCount st < int n")
    case lt: True
    from insertOrUpdate_not_full [OF assms(1) lt, of ?k "ipOfToken t"]
    obtain d where d: "stops n (hashTable st) ?k d"
      and r: "insertOrUpdate n st ?k (ipOfToken t)
          = (True, written st (probe n (hashFunction n ?k) d) ?k (ipOfToken t))"
      by blast
    from assms(2) False r have "st' = written st (probe n (hashFunction n ?k) d) ?k (ipOfToken t)"
      by (simp add: Let_def)
    with False lt d show ?thesis by blast
  next
    case ge: False
    then have "insertOrUpdate n st ?k (ipOfToken t) = (False, st)"
      by (simp add: insertOrUpdate_full)
    with assms(2) False show ?thesis by (simp add: Let_def)
  qed
qed

lemma ingest_inv:
  assumes "0 < n" "ingest n initState toks = Inr st"
  shows "table_inv n st \<and> content_inv n (hashTable st) (opsOf toks)"
  using assms(2)
proof (induction toks arbitrary: st rule: rev_induct)
  case Nil
  then have "st = initState" by simp
  with assms(1) show ?case
    by (simp add: table_inv_initState content_inv_initState opsOf_def)
next
  case (snoc t toks)
  from snoc.prems obtain st0 where st0: "ingest n initState toks = Inr st0"
    and one: "ingest n st0 [t] = Inr st"
    by (auto simp: ingest_append split: sum.splits)
  from snoc.IH [OF st0] have inv0: "table_inv n st0"
    and c0: "content_inv n (hashTable st0) (opsOf toks)" by simp_all
  from ingest_one [OF inv0 one] show ?case
  proof
    assume "extractNetwork (ipOfToken t) = [] \<and> st = st0"
    with inv0 c0 show ?thesis by (simp add: opsOf_snoc)
  next
    assume a: "extractNetwork (ipOfToken t) \<noteq> [] \<and> itemCount st0 < int n \<and>
          (\<exists>d. stops n (hashTable st0) (extractNetwork (ipOfToken t)) d \<and>
             st = written st0 (probe n (hashFunction n (extractNetwork (ipOfToken t))) d)
                     (extractNetwork (ipOfToken t)) (ipOfToken t))"
    then obtain d where d: "stops n (hashTable st0) (extractNetwork (ipOfToken t)) d"
      and st: "st = written st0 (probe n (hashFunction n (extractNetwork (ipOfToken t))) d)
                     (extractNetwork (ipOfToken t)) (ipOfToken t)"
      by blast
    have "table_inv n st" unfolding st using inv0 d by (rule table_inv_written)
    moreover have "content_inv n (hashTable st) (opsOf (toks @ [t]))"
      using a content_inv_written [OF inv0 c0 d, of "ipOfToken t"]
      by (simp add: opsOf_snoc st)
    ultimately show ?thesis by simp
  qed
qed

lemma itemCount_eq_keys:
  assumes "table_inv n st" "content_inv n (hashTable st) ops"
  shows "itemCount st = int (card (fst ` set ops))"
proof -
  let ?occ = "{i. i < n \<and> occupied (hashTable st i)}"
  let ?f = "\<lambda>i. network (hashTable st i)"
  have inj: "inj_on ?f ?occ"
  proof (rule inj_onI)
    fix i j assume "i \<in> ?occ" "j \<in> ?occ" "?f i = ?f j"
    then show "i = j"
      using key_unique [OF assms(1), of j i] by simp
  qed
  have img: "?f ` ?occ = fst ` set ops"
  proof
    show "?f ` ?occ \<subseteq> fst ` set ops"
      using assms(2) by (auto simp: content_inv_def slot_ok_def)
    show "fst ` set ops \<subseteq> ?f ` ?occ"
    proof
      fix k assume "k \<in> fst ` set ops"
      with assms(2) obtain i where "i < n" "occupied (hashTable st i)" "?f i = k"
        unfolding content_inv_def by blast
      then show "k \<in> ?f ` ?occ" by blast
    qed
  qed
  have "card (fst ` set ops) = card (?f ` ?occ)" by (simp only: img)
  also have "\<dots> = card ?occ" using inj by (rule card_image)
  finally show ?thesis using assms(1) by (simp add: table_inv_def)
qed

lemma ingest_refused:
  assumes "int n \<le> itemCount st" "extractNetwork (ipOfToken t) \<noteq> []"
  shows "ingest n st (t # rest) = Inl TableFull"
  using assms by (simp add: Let_def insertOrUpdate_full)

text \<open>
  Claim C10. Once the table holds \<^verbatim>\<open>TABLE_SIZE\<close> distinct networks, \<^verbatim>\<open>itemCount\<close> has
  reached \<^verbatim>\<open>TABLE_SIZE\<close> and \<^verbatim>\<open>insertOrUpdate\<close> returns false for every record and
  leaves the state as it is, whether the network of the record is in the table or not:
  the guard answers before any slot is probed. The ingestion of any further line with a
  network stops with the table-full error and \<^verbatim>\<open>main\<close> ends with exit status 1.
\<close>

theorem full_table_refuses_every_record:
  assumes "0 < n" "ingest n initState prior = Inr st" "n \<le> card (fst ` set (opsOf prior))"
  shows "int n \<le> itemCount st
    \<and> insertOrUpdate n st k ip = (False, st)
    \<and> (extractNetwork (ipOfToken t) \<noteq> [] \<longrightarrow>
          ingest n st (t # rest) = Inl TableFull
          \<and> main52 n (Some (prior @ t # rest)) nq toks = ([], [tableFullMessage], 1))"
proof -
  have "itemCount st = int (card (fst ` set (opsOf prior)))"
    using ingest_inv [OF assms(1,2), THEN conjunct1] ingest_inv [OF assms(1,2), THEN conjunct2]
    by (rule itemCount_eq_keys)
  with assms(3) have full: "int n \<le> itemCount st" by simp
  then have ins: "insertOrUpdate n st k ip = (False, st)"
    by (rule insertOrUpdate_full)
  have "ingest n st (t # rest) = Inl TableFull
      \<and> main52 n (Some (prior @ t # rest)) nq toks = ([], [tableFullMessage], 1)"
    if net: "extractNetwork (ipOfToken t) \<noteq> []"
  proof -
    have r: "ingest n st (t # rest) = Inl TableFull"
      using full net by (rule ingest_refused)
    have "ingest n initState (prior @ t # rest) = Inl TableFull"
      by (simp only: ingest_append assms(2) r sum.case)
    then have "main52 n (Some (prior @ t # rest)) nq toks = ([], [tableFullMessage], 1)"
      by (simp add: main52_def)
    with r show ?thesis by simp
  qed
  with full ins show ?thesis by blast
qed

lemma hash2: "hashFunction 2 ''1.1'' = 1" "hashFunction 2 ''2.2'' = 1"
  by (simp_all add: hashFunction_def)

lemma nets: "extractNetwork ''1.1.1.1'' = ''1.1''"
  "extractNetwork ''2.2.2.2'' = ''2.2''"
  "ipOfToken ''1.1.1.1:80'' = ''1.1.1.1''" "ipOfToken ''2.2.2.2:80'' = ''2.2.2.2''"
  by (simp_all add: extractNetwork_def ipOfToken_def find_char_def)

text \<open>
  With a table of two slots: after the networks 1.1 and 2.2, a third line of the network
  1.1, which is in the table, ends the run with status 1.
\<close>

theorem full_table_refuses_every_record_witness:
  "main52 2 (Some [''1.1.1.1:80'', ''2.2.2.2:80'', ''1.1.1.1:80'']) 1 [''1.1'']
     = ([], [tableFullMessage], 1)
   \<and> card (fst ` set (opsOf [''1.1.1.1:80'', ''2.2.2.2:80''])) = 2
   \<and> ''1.1'' \<in> fst ` set (opsOf [''1.1.1.1:80'', ''2.2.2.2:80''])"
proof -
  let ?before = "[''1.1.1.1:80'', ''2.2.2.2:80'']"
  have ops: "opsOf ?before = [(''1.1'', ''1.1.1.1''), (''2.2'', ''2.2.2.2'')]"
    by (simp add: opsOf_def nets)
  have "\<exists>st. ingest 2 initState ?before = Inr st"
    by (simp add: nets Let_def insertOrUpdate_def insertOrUpdate_loop.simps hash2 initState_def
        emptySlot_def createSlot_def)
  then obtain st where st: "ingest 2 initState ?before = Inr st" ..
  have card: "card (fst ` set (opsOf ?before)) = 2"
    by (simp add: ops)
  have "main52 2 (Some (?before @ ''1.1.1.1:80'' # [])) 1 [''1.1''] = ([], [tableFullMessage], 1)"
    using full_table_refuses_every_record [where n = 2 and prior = ?before and st = st
        and t = "''1.1.1.1:80''" and rest = "[]" and nq = 1 and toks = "[''1.1'']"]
      st card by (simp add: nets)
  then show ?thesis
    using card by (simp add: ops)
qed







lemma absent_search:
  assumes "0 < n" "ingest n initState toks = Inr st" "k \<notin> fst ` set (opsOf toks)"
  shows "searchNetwork n st k = - 1"
    and "card (fst ` set (opsOf toks)) < n \<Longrightarrow>
      \<exists>d. stops n (hashTable st) k d \<and> \<not> occupied (hashTable st (probe n (hashFunction n k) d))"
proof -
  from ingest_inv [OF assms(1,2)] have inv: "table_inv n st"
    and c: "content_inv n (hashTable st) (opsOf toks)" by simp_all
  have absent: "\<forall>i<n. occupied (hashTable st i) \<longrightarrow> network (hashTable st i) \<noteq> k"
    using c assms(3) by (auto simp: content_inv_def slot_ok_def)
  show "searchNetwork n st k = - 1"
    using inv absent by (rule searchNetwork_absent)
  assume "card (fst ` set (opsOf toks)) < n"
  then have "itemCount st < int n"
    using itemCount_eq_keys [OF inv c] by simp
  with inv obtain d where d: "stops n (hashTable st) k d"
    using insertOrUpdate_not_full [of n st k "[]"] by blast
  with inv absent have "\<not> occupied (hashTable st (probe n (hashFunction n k) d))"
    by (rule absent_stops_free)
  with d show "\<exists>d. stops n (hashTable st) k d \<and> \<not> occupied (hashTable st (probe n (hashFunction n k) d))"
    by blast
qed




lemma example_nets:
  "ipOfToken ''10.0.0.5:6526'' = ''10.0.0.5''" "ipOfToken ''10.0.0.9:80'' = ''10.0.0.9''"
  "extractNetwork ''10.0.0.5'' = ''10.0''" "extractNetwork ''10.0.0.9'' = ''10.0''"
  by (simp_all add: extractNetwork_def ipOfToken_def find_char_def)

lemma example_hash: "hashFunction TABLE_SIZE_52 ''10.0'' = 25529"
  by (simp add: hashFunction_def TABLE_SIZE_52_def)

lemma example_ops:
  "opsOf exampleTokens = [(''10.0'', ''10.0.0.5''), (''10.0'', ''10.0.0.5''), (''10.0'', ''10.0.0.9'')]"
  by (simp add: opsOf_def exampleTokens_def example_nets)

lemma example_state:
  "ingest TABLE_SIZE_52 initState exampleTokens
     = Inr \<lparr>hashTable = (\<lambda>i. emptySlot)(25529 :=
              \<lparr>network = ''10.0'', accessCount = 3, uniqueIPs = [''10.0.0.9'', ''10.0.0.5''],
               connectionCount = 2, occupied = True\<rparr>),
            itemCount = 1\<rparr>"
proof -
  have n: "(0::int) < int TABLE_SIZE_52" "(1::int) < int TABLE_SIZE_52" "0 < TABLE_SIZE_52"
    "\<not> TABLE_SIZE_52 \<le> Suc 0"
    by (simp_all add: TABLE_SIZE_52_def)
  show ?thesis
    by (simp add: exampleTokens_def example_nets Let_def insertOrUpdate_def
        insertOrUpdate_loop.simps [of _ _ _ _ _ _ 0] example_hash initState_def n
        emptySlot_def createSlot_def updateSlot_def addIP_def)
qed

lemma TABLE_SIZE_52_facts:
  "0 < TABLE_SIZE_52" "\<not> TABLE_SIZE_52 \<le> Suc 0" "(0::int) < int TABLE_SIZE_52"
  "(1::int) < int TABLE_SIZE_52"
  by (simp_all add: TABLE_SIZE_52_def)

lemma example_search:
  "searchNetwork TABLE_SIZE_52 exampleState ''10.0'' = 25529"
  by (simp add: searchNetwork_def searchNetwork_loop.simps [of _ _ _ _ _ 0] example_hash
      exampleState_def TABLE_SIZE_52_facts)
















lemma queryLoop_step:
  assumes "i < nq"
  shows "queryLoop n st i nq (q # toks)
       = answer n st q @ (if i < nq - 1 then [[]] else []) @ queryLoop n (queryStep n st q) (i + 1) nq toks"
  using assms
  by (subst queryLoop.simps) (simp add: Let_def answer_def queryStep_def)

lemma queryLoop_prefix:
  assumes "i + int (length qs) < nq"
  shows "queryLoop n st i nq (qs @ toks)
       = answers n st qs @ queryLoop n (foldl (queryStep n) st qs) (i + int (length qs)) nq toks"
  using assms
proof (induction qs arbitrary: st i)
  case Nil
  then show ?case by simp
next
  case (Cons q qs)
  from Cons.prems have i: "i < nq" "i < nq - 1" and rest: "(i + 1) + int (length qs) < nq"
    by simp_all
  have "queryLoop n st i nq ((q # qs) @ toks)
      = answer n st q @ [[]] @ queryLoop n (queryStep n st q) (i + 1) nq (qs @ toks)"
    using i by (simp add: queryLoop_step)
  also have "queryLoop n (queryStep n st q) (i + 1) nq (qs @ toks)
      = answers n (queryStep n st q) qs
        @ queryLoop n (foldl (queryStep n) (queryStep n st q) qs) ((i + 1) + int (length qs)) nq toks"
    using rest by (rule Cons.IH)
  finally show ?case by (simp add: add.assoc)
qed

lemma allOthers_cong:
  assumes "\<And>j. occupied (tbl' j) = occupied (tbl j)" "\<And>j. network (tbl' j) = network (tbl j)"
  shows "allOthers n tbl' k = allOthers n tbl k"
  by (simp add: allOthers_def assms)

lemma searchNetwork_cong:
  assumes n: "0 < n"
    and occ: "\<And>j. occupied (hashTable st' j) = occupied (hashTable st j)"
    and net: "\<And>j. network (hashTable st' j) = network (hashTable st j)"
  shows "searchNetwork n st' k = searchNetwork n st k"
proof -
  from stops_or_allOthers [of n "hashTable st" k] show ?thesis
  proof
    assume a: "allOthers n (hashTable st) k"
    then have "allOthers n (hashTable st') k"
      by (simp add: allOthers_cong [of "hashTable st'" "hashTable st", OF occ net])
    with a n show ?thesis by (simp add: searchNetwork_allOthers)
  next
    assume "\<exists>d. stops n (hashTable st) k d"
    then obtain d where d: "stops n (hashTable st) k d" ..
    then have d': "stops n (hashTable st') k d"
      by (simp add: stops_cong [of "hashTable st'" "hashTable st", OF occ net])
    show ?thesis
      by (simp add: searchNetwork_stops [OF n d] searchNetwork_stops [OF n d'] occ)
  qed
qed

lemma queryStep_shape:
  "occupied (hashTable (queryStep n st q) j) = occupied (hashTable st j)"
  "network (hashTable (queryStep n st q) j) = network (hashTable st j)"
  by (simp_all add: queryStep_def Let_def)

lemma queries_shape:
  "occupied (hashTable (foldl (queryStep n) st qs) j) = occupied (hashTable st j)"
  "network (hashTable (foldl (queryStep n) st qs) j) = network (hashTable st j)"
  by (induction qs arbitrary: st) (simp_all add: queryStep_shape)

lemma searchNetwork_after_queries:
  "0 < n \<Longrightarrow> searchNetwork n (foldl (queryStep n) st qs) k = searchNetwork n st k"
  by (rule searchNetwork_cong) (simp_all add: queries_shape)

text \<open>
  Claim C9. A query for a network that is not in the index, after any queries \<open>qs\<close>
  before it: \<^verbatim>\<open>searchNetwork\<close> returns -1, the program writes the query and the fixed line
  \<^verbatim>\<open>Red no encontrada\<close> (and the blank line when more queries follow), leaves the table as
  it is, goes on with the remaining queries, writes nothing to the diagnostic stream
  and ends with exit status 0.
\<close>

theorem query_miss_is_not_an_error:
  assumes "0 < n" "ingest n initState ipPorts = Inr st0" "q \<notin> fst ` set (opsOf ipPorts)"
    "int (length qs) < nq"
  shows "searchNetwork n (foldl (queryStep n) st0 qs) q = - 1
    \<and> main52 n (Some ipPorts) nq (qs @ q # toks)
        = (answers n st0 qs @ [q, notFoundMessage]
             @ (if int (length qs) < nq - 1 then [[]] else [])
             @ queryLoop n (foldl (queryStep n) st0 qs) (int (length qs) + 1) nq toks,
           [], 0)"
proof -
  let ?st = "foldl (queryStep n) st0 qs"
  have miss: "searchNetwork n ?st q = - 1"
    using assms(1) absent_search(1) [OF assms(1,2,3)] by (simp add: searchNetwork_after_queries)
  then have same: "queryStep n ?st q = ?st" and ans: "answer n ?st q = [q, notFoundMessage]"
    by (simp_all add: queryStep_def answer_def)
  have "queryLoop n st0 0 nq (qs @ q # toks)
      = answers n st0 qs @ queryLoop n ?st (0 + int (length qs)) nq (q # toks)"
    using assms(4) by (intro queryLoop_prefix) simp
  also have "queryLoop n ?st (0 + int (length qs)) nq (q # toks)
      = [q, notFoundMessage] @ (if int (length qs) < nq - 1 then [[]] else [])
        @ queryLoop n ?st (int (length qs) + 1) nq toks"
    using assms(4) by (simp add: queryLoop_step same ans)
  finally show ?thesis
    using miss by (simp add: main52_def assms(2))
qed

lemma digit_chars: "char_of (51::nat) = CHR ''3''" "char_of (50::nat) = CHR ''2''"
  by code_simp+

lemma show_small: "show_int 3 = ''3''" "show_int 2 = ''2''"
  by (simp_all add: show_int_def show_nat.simps digit_chars)

lemma example_sorted: "sortIPList [''10.0.0.9'', ''10.0.0.5''] = [''10.0.0.5'', ''10.0.0.9'']"
  by (simp add: sortIPList_def insertSorted_def compareIPs_def parseIPOctets_def getline_dot_def
      digitsValue_def char_int_def)

lemma example_answer:
  "queryLoop TABLE_SIZE_52 exampleState 1 2 [''10.0'']
     = [''10.0'', ''3'', ''2'', ''10.0.0.5'', ''10.0.0.9'']"
proof -
  have "queryLoop TABLE_SIZE_52 exampleState 1 2 [''10.0'']
      = answer TABLE_SIZE_52 exampleState ''10.0''
        @ queryLoop TABLE_SIZE_52 (queryStep TABLE_SIZE_52 exampleState ''10.0'') 2 2 []"
    by (simp add: queryLoop_step)
  moreover have "queryLoop TABLE_SIZE_52 (queryStep TABLE_SIZE_52 exampleState ''10.0'') 2 2 [] = []"
    by (subst queryLoop.simps) simp
  moreover have "answer TABLE_SIZE_52 exampleState ''10.0''
      = [''10.0'', ''3'', ''2'', ''10.0.0.5'', ''10.0.0.9'']"
    by (simp add: answer_def example_search Let_def)
      (simp add: exampleState_def show_small example_sorted)
  ultimately show ?thesis by simp
qed

text \<open>The scenario's log, asked for 192.168 and then for 10.0.\<close>

theorem query_miss_is_not_an_error_witness:
  "main52 TABLE_SIZE_52 (Some exampleTokens) 2 [''192.168'', ''10.0'']
     = ([''192.168'', ''Red no encontrada'', [], ''10.0'', ''3'', ''2'', ''10.0.0.5'', ''10.0.0.9''],
        [], 0)
   \<and> ''192.168'' \<notin> fst ` set (opsOf exampleTokens)"
proof -
  have st: "ingest TABLE_SIZE_52 initState exampleTokens = Inr exampleState"
    unfolding exampleState_def by (rule example_state)
  have absent: "''192.168'' \<notin> fst ` set (opsOf exampleTokens)"
    by (simp add: example_ops)
  have len: "int (length ([] :: string list)) < 2" by simp
  from query_miss_is_not_an_error [OF TABLE_SIZE_52_facts(1) st absent len, of "[''10.0'']"]
  show ?thesis
    using absent by (simp add: example_answer notFoundMessage_def)
qed

end
